theory Spec2Isabelle
  imports Main "HOL-Library.Multiset" "HOL-Library.Word"
begin

section \<open>Data model\<close>

text \<open>
  An Operation row of \<^verbatim>\<open>dbsync.models\<close>, with the fields the spec lists:
  \<^verbatim>\<open>{order, row_id, content_type_id, command, version_id}\<close>. The command is the
  one-character string the source compares against (\<^verbatim>\<open>'i'\<close>, \<^verbatim>\<open>'u'\<close>,
  \<^verbatim>\<open>'d'\<close>); \<open>version_id\<close> is \<open>None\<close> until a push has accepted the operation.
  \<open>order\<close> is the primary key of the operations table.
\<close>

record operation =
  order :: int
  row_id :: int
  content_type_id :: int
  command :: string
  version_id :: "int option"

text \<open>
  The exceptions the compression module can raise. \<open>AssertionError\<close> carries what the
  validator's message is formatted from: row id, content type id and the commands from
  old to new.
\<close>

datatype exn =
    IndexError
  | AssertionError int int "string list"

text \<open>
  The Python values that can meet in a comparison of the validator: \<^verbatim>\<open>None\<close>, an
  integer, a string or an Operation object. An object of a class without comparison
  methods differs from every string.
\<close>

datatype pyval = NoneVal | IntVal int | Str string | Obj operation

definition py_ne :: "pyval \<Rightarrow> pyval \<Rightarrow> bool" where
  "py_ne a b = (a \<noteq> b)"

section \<open>Helpers of \<^verbatim>\<open>dbsync.lang\<close>\<close>

text \<open>
  Modelled from the spec: \<^verbatim>\<open>group_by\<close> of \<^verbatim>\<open>dbsync.lang\<close> is not among the
  sources. It groups a collection by a key function into a dictionary; each group keeps
  the order of the collection. The dictionary is an association list with the keys in
  order of first insertion. Here \<^verbatim>\<open>itervalues\<close> enumerates it in that order; Python 2
  enumerates a dictionary in the order of its hash table, which
  \<open>compressed_operations_by\<close> below takes as a parameter. The lemmas
  \<open>compressed_operations_iteration_order\<close> and \<open>compress_iteration_order\<close> show
  where the order does not matter.
\<close>

fun group_by :: "('a \<Rightarrow> 'k) \<Rightarrow> 'a list \<Rightarrow> ('k \<times> 'a list) list" where
  "group_by fn [] = []"
| "group_by fn (e # col) =
     (fn e, e # filter (\<lambda>x. fn x = fn e) col) #
     group_by fn (filter (\<lambda>x. fn x \<noteq> fn e) col)"

definition itervalues :: "('k \<times> 'v) list \<Rightarrow> 'v list" where
  "itervalues d = map snd d"

text \<open>
  Modelled from the spec: \<^verbatim>\<open>andmap\<close> of \<^verbatim>\<open>dbsync.lang\<close> is not among the
  sources; \<^verbatim>\<open>andmap(attr('command') == 'u', seq)\<close> is the spec's "all of them are
  Update".
\<close>

definition andmap :: "('a \<Rightarrow> bool) \<Rightarrow> 'a list \<Rightarrow> bool" where
  "andmap p col = list_all p col"

definition row_key :: "operation \<Rightarrow> int \<times> int" where
  "row_key op = (row_id op, content_type_id op)"

section \<open>\<^verbatim>\<open>dbsync/client/compression.py\<close>\<close>

subsection \<open>\<^verbatim>\<open>_assert_operation_sequence\<close>\<close>

text \<open>
  The sequence is given newest first. The message is formatted before any assertion, so
  an empty sequence raises \<open>IndexError\<close> at \<^verbatim>\<open>seq[0]\<close>. The slice
  \<^verbatim>\<open>seq[1:-1]\<close> is \<open>butlast (tl seq)\<close>. The two assertions on the ends compare the
  Operation objects \<^verbatim>\<open>seq[-1]\<close> and \<^verbatim>\<open>seq[0]\<close> themselves with a string.
\<close>

definition assert_operation_sequence :: "operation list \<Rightarrow> exn + unit" where
  "assert_operation_sequence seq =
     (case seq of
        [] \<Rightarrow> Inl IndexError
      | op0 # _ \<Rightarrow>
          (let message = AssertionError (row_id op0) (content_type_id op0)
                           (rev (map command seq))
           in if \<not> list_all (\<lambda>op. command op = ''u'') (butlast (tl seq))
              then Inl message
              else if length seq > 1
              then (if \<not> py_ne (Obj (last seq)) (Str ''d'') then Inl message
                    else if \<not> py_ne (Obj (hd seq)) (Str ''i'') then Inl message
                    else Inr ())
              else Inr ()))"

subsection \<open>\<^verbatim>\<open>compress\<close>\<close>

text \<open>
  The operations table is a list of rows. The query of \<^verbatim>\<open>compress\<close> selects the
  rows without a version, newest first.
\<close>

definition unversioned :: "operation list \<Rightarrow> operation list" where
  "unversioned table =
     rev (sort_key order (filter (\<lambda>op. version_id op = None) table))"

text \<open>
  Modelled from the spec: \<^verbatim>\<open>session.delete\<close> belongs to the persistence layer. It
  deletes the row with the object's primary key.
\<close>

definition session_delete :: "operation \<Rightarrow> operation list \<Rightarrow> operation list" where
  "session_delete op table = filter (\<lambda>r. order r \<noteq> order op) table"

fun assert_all :: "operation list list \<Rightarrow> exn + unit" where
  "assert_all [] = Inr ()"
| "assert_all (seq # seqs) =
     (case assert_operation_sequence seq of
        Inl e \<Rightarrow> Inl e
      | Inr _ \<Rightarrow> assert_all seqs)"

text \<open>
  The rows one iteration of the second loop hands to \<^verbatim>\<open>session.delete\<close>, for a
  sequence of more than one element: \<^verbatim>\<open>seq[:-1]\<close> is \<open>butlast seq\<close>,
  \<^verbatim>\<open>seq[1:]\<close> is \<open>tl seq\<close>.
\<close>

definition seq_deletions :: "operation list \<Rightarrow> operation list" where
  "seq_deletions seq =
     (if command (last seq) = ''i''
      then (if andmap (\<lambda>op. command op = ''u'') (butlast seq) then butlast seq
            else if command (hd seq) = ''d'' then seq
            else [])
      else if command (last seq) = ''u''
      then (if andmap (\<lambda>op. command op = ''u'') (butlast seq) then tl seq
            else if command (hd seq) = ''d'' then tl seq
            else [])
      else [])"

definition delete_loop :: "operation list list \<Rightarrow> operation list \<Rightarrow> operation list" where
  "delete_loop seqs table =
     fold (\<lambda>seq t. fold session_delete (seq_deletions seq) t)
       (filter (\<lambda>seq. length seq > 1) seqs) table"

text \<open>
  \<^verbatim>\<open>compress\<close> returns the committed table, or the exception of the first sequence
  that fails validation; then nothing has been deleted and nothing is committed.
\<close>

definition compress :: "operation list \<Rightarrow> exn + operation list" where
  "compress table =
     (let seqs = group_by row_key (unversioned table)
      in case assert_all (itervalues seqs) of
           Inl e \<Rightarrow> Inl e
         | Inr _ \<Rightarrow> Inr (delete_loop (itervalues seqs) table))"

subsection \<open>\<^verbatim>\<open>compressed_operations\<close>\<close>

text \<open>
  What one iteration of the loop appends to \<^verbatim>\<open>compressed\<close>. Every branch starts by
  reading \<^verbatim>\<open>seq[0]\<close>, which raises on an empty sequence.
\<close>

definition compressed_seq :: "operation list \<Rightarrow> exn + operation list" where
  "compressed_seq seq =
     (case seq of
        [] \<Rightarrow> Inl IndexError
      | op0 # rest \<Rightarrow>
          Inr (if command op0 = ''i'' \<and> andmap (\<lambda>op. command op = ''u'') rest then [op0]
               else if command op0 = ''u''
               then (if andmap (\<lambda>op. command op = ''u'') rest then [op0]
                     else if command (last seq) = ''d'' then [last seq]
                     else [])
               else if length seq = 1 then [op0]
               else []))"

fun compressed_loop :: "operation list list \<Rightarrow> operation list \<Rightarrow> exn + operation list" where
  "compressed_loop [] compressed = Inr compressed"
| "compressed_loop (seq # seqs) compressed =
     (case compressed_seq seq of
        Inl e \<Rightarrow> Inl e
      | Inr new \<Rightarrow> compressed_loop seqs (compressed @ new))"

definition compressed_operations :: "operation list \<Rightarrow> exn + operation list" where
  "compressed_operations operations =
     (let seqs = group_by row_key (sort_key order operations)
      in case compressed_loop (itervalues seqs) [] of
           Inl e \<Rightarrow> Inl e
         | Inr compressed \<Rightarrow> Inr (sort_key order compressed))"

subsection \<open>The enumeration order of a Python 2 dictionary\<close>

text \<open>
  \<^verbatim>\<open>compressed_operations\<close> with the enumeration of the dictionary of groups as a
  parameter: \<open>enum\<close> maps the dictionary, given with its keys in order of insertion, to
  the values in the order \<^verbatim>\<open>itervalues\<close> yields them. A dictionary enumerates each of
  its values once.
\<close>

definition enumerates_values :: "(('k \<times> 'v) list \<Rightarrow> 'v list) \<Rightarrow> bool" where
  "enumerates_values enum \<longleftrightarrow> (\<forall>d. mset (enum d) = mset (map snd d))"

definition compressed_operations_by ::
  "(((int \<times> int) \<times> operation list) list \<Rightarrow> operation list list) \<Rightarrow> operation list \<Rightarrow>
   exn + operation list" where
  "compressed_operations_by enum ops =
     (let seqs = group_by row_key (sort_key order ops)
      in case compressed_loop (enum seqs) [] of
           Inl e \<Rightarrow> Inl e
         | Inr compressed \<Rightarrow> Inr (sort_key order compressed))"

text \<open>
  The enumeration of CPython 2.7 on a 64-bit platform, for keys that are pairs of machine
  integers. The hash of an integer is the integer (\<open>-2\<close> for \<open>-1\<close>); the hash of a pair
  is \<^verbatim>\<open>tuplehash\<close>, in 64-bit arithmetic.
\<close>

unbundle bit_operations_syntax

type_synonym py_key = "int \<times> int"

definition int_hash :: "int \<Rightarrow> 64 word" where
  "int_hash n = (if n = - 1 then - 2 else word_of_int n)"

definition tuple_hash :: "py_key \<Rightarrow> 64 word" where
  "tuple_hash key =
     (let x = (0x345678 XOR int_hash (fst key)) * 1000003;
          x = (x XOR int_hash (snd key)) * 1082525;
          x = x + 97531
      in if x = - 1 then - 2 else x)"

text \<open>
  The hash table is a list of slots, its length a power of two. \<^verbatim>\<open>lookdict\<close> probes
  the slot \<open>i AND mask\<close>, then continues with \<open>i := 4i + i + perturb + 1\<close> and
  \<open>perturb := perturb >> 5\<close>, starting from \<open>i = hash AND mask\<close> and
  \<open>perturb = hash\<close>, until it meets a free slot or the key. The table is never full, and
  the probes reach every slot: the number of steps is bounded by the first argument.
\<close>

fun lookdict :: "nat \<Rightarrow> py_key option list \<Rightarrow> py_key \<Rightarrow> 64 word \<Rightarrow> 64 word \<Rightarrow> nat" where
  "lookdict 0 slots key i perturb = unat (i AND word_of_nat (length slots - 1))"
| "lookdict (Suc fuel) slots key i perturb =
     (let j = unat (i AND word_of_nat (length slots - 1))
      in if slots ! j = None \<or> slots ! j = Some key then j
         else lookdict fuel slots key (push_bit 2 i + i + perturb + 1) (drop_bit 5 perturb))"

definition insertdict :: "py_key \<Rightarrow> py_key option list \<Rightarrow> py_key option list" where
  "insertdict key slots =
     slots[lookdict (length slots + 16) slots key
             (tuple_hash key AND word_of_nat (length slots - 1)) (tuple_hash key) := Some key]"

text \<open>
  A table two thirds full after an insertion is resized to the first power of two above
  four times the number of its keys (twice, above 50000 keys), starting from 8, and its keys
  are inserted again in the order of their slots.
\<close>

fun new_size :: "nat \<Rightarrow> nat \<Rightarrow> nat \<Rightarrow> nat" where
  "new_size 0 minused n = n"
| "new_size (Suc fuel) minused n =
     (if n \<le> minused then new_size fuel minused (2 * n) else n)"

definition dictresize :: "nat \<Rightarrow> py_key option list \<Rightarrow> py_key option list" where
  "dictresize minused slots =
     fold insertdict (List.map_filter id slots) (replicate (new_size 64 minused 8) None)"

definition dict_setitem :: "py_key \<Rightarrow> py_key option list \<Rightarrow> py_key option list" where
  "dict_setitem key slots =
     (let n_used = length (List.map_filter id slots);
          slots' = insertdict key slots;
          used = length (List.map_filter id slots')
      in if used > n_used \<and> used * 3 \<ge> length slots' * 2
         then dictresize ((if used > 50000 then 2 else 4) * used) slots'
         else slots')"

text \<open>
  The slot of a key in the table built by inserting the keys in the given order into an
  empty table of 8 slots; \<^verbatim>\<open>itervalues\<close> yields the values in the order of their
  slots.
\<close>

definition py27_slot :: "py_key list \<Rightarrow> py_key \<Rightarrow> nat" where
  "py27_slot keys key =
     length (takeWhile (\<lambda>slot. slot \<noteq> Some key) (fold dict_setitem keys (replicate 8 None)))"

definition py27_itervalues :: "(py_key \<times> 'v) list \<Rightarrow> 'v list" where
  "py27_itervalues d = map snd (sort_key (\<lambda>item. py27_slot (map fst d) (fst item)) d)"

section \<open>Derived notions\<close>

text \<open>
  The operations of one tracked row in a list given to \<^verbatim>\<open>compressed_operations\<close>,
  ascending by \<open>order\<close>: the per-row run of the pure compaction.
\<close>

definition row_run :: "int \<times> int \<Rightarrow> operation list \<Rightarrow> operation list" where
  "row_run k ops = filter (\<lambda>op. row_key op = k) (sort_key order ops)"

text \<open>
  The unversioned operations of one tracked row in the operations table, newest first: the
  per-row sequence \<^verbatim>\<open>compress\<close> validates and compacts.
\<close>

definition stored_run :: "int \<times> int \<Rightarrow> operation list \<Rightarrow> operation list" where
  "stored_run k table = filter (\<lambda>op. row_key op = k) (unversioned table)"

text \<open>What the loop of \<^verbatim>\<open>compressed_operations\<close> appends for one sequence.\<close>

definition seq_kept :: "operation list \<Rightarrow> operation list" where
  "seq_kept seq = (case compressed_seq seq of Inl _ \<Rightarrow> [] | Inr new \<Rightarrow> new)"

text \<open>
  What the second loop of \<^verbatim>\<open>compress\<close> deletes of one sequence (nothing of a
  sequence of one element, which the loop skips), and what it leaves.
\<close>

definition deleted_of :: "operation list \<Rightarrow> operation list" where
  "deleted_of seq = (if length seq > 1 then seq_deletions seq else [])"

definition seq_remaining :: "operation list \<Rightarrow> operation list" where
  "seq_remaining seq = filter (\<lambda>r. r \<notin> set (deleted_of seq)) seq"

text \<open>An unversioned operation of content type 1, for the concrete examples.\<close>

definition mk_op :: "int \<Rightarrow> int \<Rightarrow> string \<Rightarrow> operation" where
  "mk_op n r c = \<lparr>order = n, row_id = r, content_type_id = 1, command = c, version_id = None\<rparr>"

text \<open>
  An operations table for the concrete examples: four tracked rows with unversioned
  operations and one versioned operation, and the table \<^verbatim>\<open>compress\<close> leaves.
\<close>

definition ex_table :: "operation list" where
  "ex_table =
     [mk_op 1 7 ''i'', mk_op 2 7 ''u'', mk_op 3 7 ''u'',
      mk_op 4 8 ''i'', mk_op 5 8 ''d'',
      mk_op 6 9 ''u'', mk_op 7 9 ''u'',
      mk_op 8 10 ''u'', mk_op 9 10 ''d'',
      (mk_op 10 7 ''u'')\<lparr>version_id := Some 1\<rparr>]"

definition ex_table' :: "operation list" where
  "ex_table' =
     [mk_op 1 7 ''i'', mk_op 7 9 ''u'', mk_op 9 10 ''d'',
      (mk_op 10 7 ''u'')\<lparr>version_id := Some 1\<rparr>]"

section \<open>Replaying operations on a row\<close>

text \<open>
  Modelled from the spec: \<^verbatim>\<open>Operation.perform\<close> of \<^verbatim>\<open>dbsync.models\<close> is not among
  the sources. A row is absent or present with some content. Operations carry no payload:
  the content an Insert or an Update writes is the row's content read live when the message
  is built, \<open>live\<close>, the same for every operation of the row. An Insert on a present row,
  and an Update or a Delete on an absent row, are conflicts (\<open>None\<close>).
\<close>

datatype 'c row_state = Absent | Present 'c

definition perform_row :: "'c \<Rightarrow> operation \<Rightarrow> 'c row_state \<Rightarrow> 'c row_state option" where
  "perform_row live op s =
     (if command op = ''i''
      then (case s of Absent \<Rightarrow> Some (Present live) | Present _ \<Rightarrow> None)
      else if command op = ''u''
      then (case s of Absent \<Rightarrow> None | Present _ \<Rightarrow> Some (Present live))
      else if command op = ''d''
      then (case s of Absent \<Rightarrow> None | Present _ \<Rightarrow> Some Absent)
      else None)"

fun replay :: "'c \<Rightarrow> operation list \<Rightarrow> 'c row_state \<Rightarrow> 'c row_state option" where
  "replay live [] s = Some s"
| "replay live (op # ops) s =
     (case perform_row live op s of
        None \<Rightarrow> None
      | Some s' \<Rightarrow> replay live ops s')"

text \<open>
  Modelled from the spec: the validator's contract for the operations of one row, here from
  oldest to newest. Every command is an Insert, an Update or a Delete; every interior
  element is an Update; of more than one element, the oldest is not a Delete and the
  newest is not an Insert.
\<close>

definition legal_sequence :: "operation list \<Rightarrow> bool" where
  "legal_sequence seq \<longleftrightarrow>
     list_all (\<lambda>op. command op = ''i'' \<or> command op = ''u'' \<or> command op = ''d'') seq \<and>
     list_all (\<lambda>op. command op = ''u'') (butlast (tl seq)) \<and>
     (length seq > 1 \<longrightarrow> command (hd seq) \<noteq> ''d'' \<and> command (last seq) \<noteq> ''i'')"

section \<open>\<^verbatim>\<open>dbsync/server/handlers.py\<close>\<close>

subsection \<open>Server state\<close>

text \<open>
  A Version row; the fields are prefixed, \<open>version_id\<close> and \<open>node_id\<close> being fields of
  an operation and of a push message.
\<close>

record version =
  v_version_id :: int
  v_created :: int
  v_node_id :: int

text \<open>
  The database a session works on: the versions table and the operations table, as lists
  of rows in storage order, and everything else (tracked rows, nodes, content types) as
  \<open>tracked\<close>.
\<close>

record 'r database =
  versions :: "version list"
  sync_operations :: "operation list"
  tracked :: 'r

text \<open>
  A request is a dictionary-like object: the parameters of a GET request, or the product of
  parsing a JSON string.
\<close>

text \<open>
  The values of a request: \<^verbatim>\<open>None\<close>, an integer, a string, a float or any other
  object (a list, a dictionary). A float is finite, \<open>Finite m e\<close> being
  \<open>m \<cdot> 2\<^sup>e\<close>, or an infinity, or not a number.
\<close>

datatype pyfloat = Finite int int | PosInf | NegInf | NaN

datatype reqval = NoneV | IntV int | StrV string | FloatV pyfloat | OtherV

type_synonym request = "string \<rightharpoonup> reqval"

text \<open>
  The arguments of an exception: the raw request data, a text, a text formatted with
  \<^verbatim>\<open>%d\<close> and an integer, or an operation.
\<close>

datatype arg = Data request | Text string | Formatted string int | Op operation

text \<open>
  The exceptions raised by the code the handlers call, and the exceptions that leave a
  handler: \<open>PushRejected\<close> and \<open>PullRejected\<close>, which only \<^verbatim>\<open>handlers.py\<close>
  raises, or an exception of the code below that the handler does not catch.
\<close>

datatype exc =
    KeyError
  | TypeError
  | ValueError
  | OverflowError
  | OperationError "arg list"

datatype server_exn = PushRejected "arg list" | PullRejected "arg list" | Raised exc

text \<open>
  The server: the database and the log \<^verbatim>\<open>core.save_log\<close> writes, an entry being the
  tag, the node id and the arguments logged.
\<close>

record 'r server =
  db :: "'r database"
  log :: "(string \<times> int \<times> arg list) list"

record push_message =
  node_id :: int
  latest_version_id :: "int option"
  operations :: "operation list"
  signature :: string

text \<open>
  Modelled from the spec: \<^verbatim>\<open>core.get_latest_version_id\<close> is not among the sources.
  The latest version is the maximal \<open>version_id\<close> over all versions, or \<open>None\<close> if
  there is none.
\<close>

definition get_latest_version_id :: "'r database \<Rightarrow> int option" where
  "get_latest_version_id d =
     (if versions d = [] then None else Some (Max (set (map v_version_id (versions d)))))"

text \<open>
  Modelled from the spec: the persistence layer assigns the primary key of a new row when
  the session is flushed; the next key is one more than the largest in the table.
\<close>

definition next_version_id :: "'r database \<Rightarrow> int" where
  "next_version_id d = (case get_latest_version_id d of None \<Rightarrow> 1 | Some n \<Rightarrow> n + 1)"

definition next_order :: "operation list \<Rightarrow> int" where
  "next_order table = (if table = [] then 1 else Max (set (map order table)) + 1)"

text \<open>
  Modelled from the spec: \<^verbatim>\<open>core.with_transaction\<close> is not among the sources. The
  wrapped body runs in one transaction, committed when it returns and rolled back when it
  raises: then the database is the one before the call. The log is not part of the
  database.
\<close>

definition with_transaction ::
  "('r server \<Rightarrow> ('e + 'a) \<times> 'r server) \<Rightarrow>
   'r server \<Rightarrow> ('e + 'a) \<times> 'r server" where
  "with_transaction body s =
     (case body s of
        (Inl e, s') \<Rightarrow> (Inl e, s'\<lparr>db := db s\<rparr>)
      | (Inr r, s') \<Rightarrow> (Inr r, s'))"

subsection \<open>\<^verbatim>\<open>handle_push\<close>\<close>

text \<open>
  The loop over \<^verbatim>\<open>message.operations\<close>, in the order of the message. \<open>perform\<close>
  stands for \<^verbatim>\<open>op.perform\<close>, which is not among the sources: it returns the
  database it leaves and the exception it raised, if any. The loop stops at the first
  exception.
\<close>

fun perform_all ::
  "(operation \<Rightarrow> push_message \<Rightarrow> 'r database \<Rightarrow> exc option \<times> 'r database) \<Rightarrow>
   push_message \<Rightarrow> operation list \<Rightarrow> 'r database \<Rightarrow> exc option \<times> 'r database" where
  "perform_all perform message [] d = (None, d)"
| "perform_all perform message (op # ops) d =
     (case perform op message d of
        (Some e, d') \<Rightarrow> (Some e, d')
      | (None, d') \<Rightarrow> perform_all perform message ops d')"

text \<open>
  The loop that inserts the operations: each new operation copies every property but
  \<open>order\<close>, is linked to the new version and gets its \<open>order\<close> when the session is
  flushed.
\<close>

fun insert_operations :: "int \<Rightarrow> operation list \<Rightarrow> operation list \<Rightarrow> operation list" where
  "insert_operations vid [] table = table"
| "insert_operations vid (op # ops) table =
     insert_operations vid ops
       (table @ [op\<lparr>order := next_order table, version_id := Some vid\<rparr>])"

text \<open>
  The body of \<^verbatim>\<open>handle_push\<close>. \<open>parse\<close> stands for the constructor
  \<^verbatim>\<open>PushMessage(data)\<close> and \<open>islegit\<close> for \<^verbatim>\<open>message.islegit(session)\<close>, which
  are not among the sources; \<open>now\<close> is \<^verbatim>\<open>datetime.datetime.now()\<close>. The rejection of
  a stale push formats \<^verbatim>\<open>message.latest_version_id\<close> with \<^verbatim>\<open>%d\<close>, which raises
  \<open>TypeError\<close> on \<^verbatim>\<open>None\<close>. The decorator \<^verbatim>\<open>with_listening(False)\<close> switches
  the change capture off during the call; the model has no change capture.
\<close>

definition handle_push_body ::
  "(request \<Rightarrow> exc + push_message) \<Rightarrow>
   (push_message \<Rightarrow> 'r database \<Rightarrow> bool) \<Rightarrow>
   (operation \<Rightarrow> push_message \<Rightarrow> 'r database \<Rightarrow> exc option \<times> 'r database) \<Rightarrow>
   int \<Rightarrow> request \<Rightarrow> 'r server \<Rightarrow> (server_exn + int) \<times> 'r server" where
  "handle_push_body parse islegit perform now data s =
     (case parse data of
        Inl KeyError \<Rightarrow>
          (Inl (PushRejected [Text ''request object isn't a valid PushMessage'', Data data]), s)
      | Inl e \<Rightarrow> (Inl (Raised e), s)
      | Inr message \<Rightarrow>
          if get_latest_version_id (db s) \<noteq> latest_version_id message
          then (case latest_version_id message of
                  None \<Rightarrow> (Inl (Raised TypeError), s)
                | Some given \<Rightarrow>
                    (Inl (PushRejected
                       [Formatted ''version identifier isn't the latest one; given: %d'' given]),
                     s))
          else if operations message = []
          then (Inl (PushRejected [Text ''message doesn't contain operations'']), s)
          else if \<not> islegit message (db s)
          then (Inl (PushRejected [Text ''message isn't properly signed'']), s)
          else
            (case perform_all perform message (operations message) (db s) of
               (Some (OperationError args), d') \<Rightarrow>
                 (Inl (PushRejected
                    (Text ''at least one operation couldn't be performed'' # args)),
                  s\<lparr>db := d',
                    log := log s @ [(''handlers.push.OperationError'', node_id message, args)]\<rparr>)
             | (Some e, d') \<Rightarrow> (Inl (Raised e), s\<lparr>db := d'\<rparr>)
             | (None, d') \<Rightarrow>
                 (let vid = next_version_id d';
                      version = \<lparr>v_version_id = vid, v_created = now,
                                 v_node_id = node_id message\<rparr>
                  in (Inr vid,
                      s\<lparr>db := d'\<lparr>versions := versions d' @ [version],
                                   sync_operations :=
                                     insert_operations vid
                                       (sort_key order (operations message))
                                       (sync_operations d')\<rparr>\<rparr>))))"

definition handle_push ::
  "(request \<Rightarrow> exc + push_message) \<Rightarrow>
   (push_message \<Rightarrow> 'r database \<Rightarrow> bool) \<Rightarrow>
   (operation \<Rightarrow> push_message \<Rightarrow> 'r database \<Rightarrow> exc option \<times> 'r database) \<Rightarrow>
   int \<Rightarrow> request \<Rightarrow> 'r server \<Rightarrow> (server_exn + int) \<times> 'r server" where
  "handle_push parse islegit perform now data =
     with_transaction (handle_push_body parse islegit perform now data)"

subsection \<open>\<^verbatim>\<open>handle_pull\<close>\<close>

text \<open>
  Python's \<^verbatim>\<open>int\<close> on a value of a request dictionary. \<open>int_of_str\<close> stands for
  the conversion of a string, \<open>None\<close> where the string is no integer literal. A finite
  float is truncated towards zero; an infinity raises \<open>OverflowError\<close> and a float that
  is not a number \<open>ValueError\<close>.
\<close>

definition py_int :: "(string \<Rightarrow> int option) \<Rightarrow> reqval \<Rightarrow> exc + int" where
  "py_int int_of_str v =
     (case v of
        NoneV \<Rightarrow> Inl TypeError
      | IntV n \<Rightarrow> Inr n
      | StrV s \<Rightarrow> (case int_of_str s of None \<Rightarrow> Inl ValueError | Some n \<Rightarrow> Inr n)
      | FloatV (Finite m e) \<Rightarrow>
          Inr (if 0 \<le> e then m * 2 ^ nat e
               else if 0 \<le> m then m div 2 ^ nat (- e)
               else - ((- m) div 2 ^ nat (- e)))
      | FloatV PosInf \<Rightarrow> Inl OverflowError
      | FloatV NegInf \<Rightarrow> Inl OverflowError
      | FloatV NaN \<Rightarrow> Inl ValueError
      | OtherV \<Rightarrow> Inl TypeError)"

record ('p, 'e) pull_message =
  pm_versions :: "version list"
  pm_operations :: "operation list"
  pm_payload :: "'p list"
  pm_extra :: "(string \<times> 'e) list"

text \<open>
  Modelled from the spec: \<^verbatim>\<open>PullMessage.add_version\<close> is not among the sources. It
  attaches the version and its operations and, when \<open>swell\<close> holds, the current row data
  of each operation's subject; \<open>fetch\<close> reads the row an operation is about, if it
  exists.
\<close>

definition add_version ::
  "('r \<Rightarrow> operation \<Rightarrow> 'p option) \<Rightarrow> 'r database \<Rightarrow> version \<Rightarrow> bool \<Rightarrow>
   ('p, 'e) pull_message \<Rightarrow> ('p, 'e) pull_message" where
  "add_version fetch d v swell m =
     (let ops = filter (\<lambda>op. version_id op = Some (v_version_id v)) (sync_operations d)
      in m\<lparr>pm_versions := pm_versions m @ [v],
           pm_operations := pm_operations m @ ops,
           pm_payload := pm_payload m @
             (if swell then List.map_filter (fetch (tracked d)) ops else [])\<rparr>)"

text \<open>
  \<^verbatim>\<open>handle_pull\<close>. The request is a dictionary, \<open>extra_data\<close> a dictionary or
  \<^verbatim>\<open>None\<close>. The query has no \<^verbatim>\<open>order_by\<close>: it yields the versions in the storage
  order of the table. It is run when the loop starts; \<open>bindable\<close> stands for the
  database driver, which raises \<open>OverflowError\<close> on an integer it cannot bind as a
  parameter of the query (SQLite's: one outside 64 bits). Only \<open>ValueError\<close> and
  \<open>TypeError\<close> of the conversion are caught. The result is the message that
  \<^verbatim>\<open>to_json\<close> serialises.
\<close>

definition handle_pull ::
  "(string \<Rightarrow> int option) \<Rightarrow> (int \<Rightarrow> bool) \<Rightarrow> ('r \<Rightarrow> operation \<Rightarrow> 'p option) \<Rightarrow>
   request \<Rightarrow> (string \<times> 'e) list option \<Rightarrow> 'r database \<Rightarrow>
   server_exn + ('p, 'e) pull_message" where
  "handle_pull int_of_str bindable fetch data extra_data d =
     (let extra =
            (case extra_data of
               None \<Rightarrow> []
             | Some xs \<Rightarrow>
                 filter (\<lambda>(k, v). k \<notin> set [''operations'', ''created'', ''payload'', ''versions''])
                   xs);
          given = (case data ''latest_version_id'' of None \<Rightarrow> NoneV | Some v \<Rightarrow> v)
      in case (case py_int int_of_str given of
                 Inr n \<Rightarrow> Inr (Some n)
               | Inl ValueError \<Rightarrow> Inr None
               | Inl TypeError \<Rightarrow> Inr None
               | Inl e \<Rightarrow> Inl (Raised e)) of
           Inl e \<Rightarrow> Inl e
         | Inr latest \<Rightarrow>
             (let swell = (data ''fast_forward'' = None);
                  message = \<lparr>pm_versions = [], pm_operations = [], pm_payload = [],
                              pm_extra = extra\<rparr>
              in case (case latest of
                         None \<Rightarrow> Inr (versions d)
                       | Some n \<Rightarrow>
                           if bindable n
                           then Inr (filter (\<lambda>v. v_version_id v > n) (versions d))
                           else Inl (Raised OverflowError)) of
                   Inl e \<Rightarrow> Inl e
                 | Inr selected \<Rightarrow>
                     Inr (fold (\<lambda>v m. add_version fetch d v swell m) selected message)))"

subsection \<open>A server for the concrete examples\<close>

text \<open>
  The tracked part of the database is the list of the keys of the rows that exist. The
  stand-in for \<^verbatim>\<open>op.perform\<close> raises \<open>OperationError\<close> with the operation when an
  Insert meets an existing row or an Update or Delete a missing one.
\<close>

definition ex_perform ::
  "operation \<Rightarrow> push_message \<Rightarrow> (int \<times> int) list database \<Rightarrow>
   exc option \<times> (int \<times> int) list database" where
  "ex_perform op message d =
     (if command op = ''i''
      then (if row_key op \<in> set (tracked d)
            then (Some (OperationError [Text ''row exists'', Op op]), d)
            else (None, d\<lparr>tracked := row_key op # tracked d\<rparr>))
      else if row_key op \<notin> set (tracked d)
      then (Some (OperationError [Text ''row missing'', Op op]), d)
      else if command op = ''d''
      then (None, d\<lparr>tracked := removeAll (row_key op) (tracked d)\<rparr>)
      else (None, d))"

definition ex_message :: push_message where
  "ex_message =
     \<lparr>node_id = 3, latest_version_id = Some 4,
      operations = [mk_op 11 8 ''i'', mk_op 13 9 ''u'', mk_op 12 8 ''u''],
      signature = ''sig''\<rparr>"

definition ex_parse :: "request \<Rightarrow> exc + push_message" where
  "ex_parse data = Inr ex_message"

definition ex_islegit :: "push_message \<Rightarrow> (int \<times> int) list database \<Rightarrow> bool" where
  "ex_islegit message d = (signature message = ''sig'')"

definition ex_versions :: "version list" where
  "ex_versions =
     [\<lparr>v_version_id = 3, v_created = 10, v_node_id = 2\<rparr>,
      \<lparr>v_version_id = 4, v_created = 20, v_node_id = 3\<rparr>]"

definition ex_stored :: "operation list" where
  "ex_stored =
     [(mk_op 1 9 ''i'')\<lparr>version_id := Some 3\<rparr>, (mk_op 2 9 ''u'')\<lparr>version_id := Some 4\<rparr>]"

text \<open>A server where row 9 exists, and one where no tracked row exists.\<close>

definition ex_server :: "(int \<times> int) list server" where
  "ex_server =
     \<lparr>db = \<lparr>versions = ex_versions, sync_operations = ex_stored, tracked = [(9, 1)]\<rparr>,
      log = []\<rparr>"

definition ex_server_empty :: "(int \<times> int) list server" where
  "ex_server_empty =
     \<lparr>db = \<lparr>versions = ex_versions, sync_operations = ex_stored, tracked = []\<rparr>,
      log = []\<rparr>"

text \<open>A stale push: the message was computed against version 2.\<close>

definition ex_parse_stale :: "request \<Rightarrow> exc + push_message" where
  "ex_parse_stale data = Inr (ex_message\<lparr>latest_version_id := Some 2\<rparr>)"

text \<open>The server after the push of \<open>ex_message\<close> at time 30 has been accepted.\<close>

definition ex_server_pushed :: "(int \<times> int) list server" where
  "ex_server_pushed =
     \<lparr>db = \<lparr>versions = ex_versions @ [\<lparr>v_version_id = 5, v_created = 30, v_node_id = 3\<rparr>],
            sync_operations = ex_stored @
              [(mk_op 3 8 ''i'')\<lparr>version_id := Some 5\<rparr>,
               (mk_op 4 8 ''u'')\<lparr>version_id := Some 5\<rparr>,
               (mk_op 5 9 ''u'')\<lparr>version_id := Some 5\<rparr>],
            tracked = [(8, 1), (9, 1)]\<rparr>,
      log = []\<rparr>"

text \<open>A pull request for the versions after version 3, and the stand-ins it needs.\<close>

definition ex_int_of_str :: "string \<Rightarrow> int option" where
  "ex_int_of_str s = (if s = ''3'' then Some 3 else None)"

definition ex_fetch :: "(int \<times> int) list \<Rightarrow> operation \<Rightarrow> (int \<times> int) option" where
  "ex_fetch rows op = (if row_key op \<in> set rows then Some (row_key op) else None)"

definition ex_request :: request where
  "ex_request = [''latest_version_id'' \<mapsto> StrV ''3'']"

definition ex_bindable :: "int \<Rightarrow> bool" where
  "ex_bindable n \<longleftrightarrow> - (2 ^ 63) \<le> n \<and> n < 2 ^ 63"

text \<open>A database whose versions table is not stored in ascending order of ids.\<close>

definition ex_unsorted :: "(int \<times> int) list database" where
  "ex_unsorted =
     \<lparr>versions =
        [\<lparr>v_version_id = 5, v_created = 30, v_node_id = 3\<rparr>,
         \<lparr>v_version_id = 3, v_created = 10, v_node_id = 2\<rparr>,
         \<lparr>v_version_id = 4, v_created = 20, v_node_id = 3\<rparr>],
      sync_operations = [], tracked = []\<rparr>"

section \<open>Lemmas\<close>

subsection \<open>Grouping\<close>

lemma group_by_keys: "fst ` set (group_by f xs) = f ` set xs"
  by (induction f xs rule: group_by.induct) auto

lemma group_by_distinct: "distinct (map fst (group_by f xs))"
  by (induction f xs rule: group_by.induct) (auto simp: group_by_keys)

lemma filter_filter_neq:
  "k \<noteq> k' \<Longrightarrow> filter (\<lambda>x. f x = k) (filter (\<lambda>x. f x \<noteq> k') xs) = filter (\<lambda>x. f x = k) xs"
  by (induction xs) auto

lemma filter_filter_eq_neq:
  "filter (\<lambda>x. f x = k) (filter (\<lambda>x. f x \<noteq> k) xs) = []"
  by (induction xs) auto

lemma group_by_member:
  "(k, g) \<in> set (group_by f xs) \<Longrightarrow> g = filter (\<lambda>x. f x = k) xs \<and> g \<noteq> []"
proof (induction f xs rule: group_by.induct)
  case (1 fn)
  then show ?case by simp
next
  case (2 fn e col)
  from "2.prems" consider "k = fn e" "g = e # filter (\<lambda>x. fn x = fn e) col"
    | "(k, g) \<in> set (group_by fn (filter (\<lambda>x. fn x \<noteq> fn e) col))" by auto
  then show ?case
  proof cases
    case 1
    then show ?thesis by simp
  next
    case 2
    from "2.IH"[OF 2] have g: "g = filter (\<lambda>x. fn x = k) (filter (\<lambda>x. fn x \<noteq> fn e) col)" and ne: "g \<noteq> []"
      by blast+
    have "k \<noteq> fn e"
    proof
      assume "k = fn e"
      with g have "g = []" by (simp only: filter_filter_eq_neq)
      with ne show False by simp
    qed
    then have eq: "filter (\<lambda>x. fn x = k) (filter (\<lambda>x. fn x \<noteq> fn e) col) = filter (\<lambda>x. fn x = k) col"
      by (rule filter_filter_neq)
    from g eq have g': "g = filter (\<lambda>x. fn x = k) col" by (simp only:)
    from \<open>k \<noteq> fn e\<close> have "fn e \<noteq> k" by blast
    with g' ne show ?thesis by simp
  qed
qed

lemma group_by_nonempty: "g \<in> set (itervalues (group_by f xs)) \<Longrightarrow> g \<noteq> []"
  by (auto simp: itervalues_def dest: group_by_member)

lemma filter_key_all: "\<forall>x \<in> set ys. f x = k \<Longrightarrow> filter (\<lambda>x. f x = k) ys = ys"
  by (induction ys) auto

lemma filter_key_none: "\<forall>x \<in> set ys. f x = k' \<Longrightarrow> k \<noteq> k' \<Longrightarrow> filter (\<lambda>x. f x = k) ys = []"
  by (induction ys) auto

lemma filter_concat_groups:
  assumes sub: "\<And>g. set (c g) \<subseteq> set g"
  shows "filter (\<lambda>x. f x = k) (concat (map c (itervalues (group_by f xs)))) =
         (if filter (\<lambda>x. f x = k) xs = [] then [] else c (filter (\<lambda>x. f x = k) xs))"
proof (induction f xs rule: group_by.induct)
  case (1 fn)
  then show ?case by (simp add: itervalues_def)
next
  case (2 fn e col)
  let ?G = "e # filter (\<lambda>x. fn x = fn e) col"
  let ?R = "filter (\<lambda>x. fn x \<noteq> fn e) col"
  have "\<forall>x \<in> set ?G. fn x = fn e" by simp
  with sub[of ?G] have all_G: "\<forall>x \<in> set (c ?G). fn x = fn e" by blast
  have unfold: "concat (map c (itervalues (group_by fn (e # col)))) =
                c ?G @ concat (map c (itervalues (group_by fn ?R)))"
    by (simp add: itervalues_def)
  note IH = "2.IH"
  show ?case
  proof (cases "k = fn e")
    case True
    have a: "filter (\<lambda>x. fn x = fn e) (c ?G) = c ?G" using all_G by (rule filter_key_all)
    have b: "filter (\<lambda>x. fn x = fn e) ?R = []" by (rule filter_filter_eq_neq)
    have c: "filter (\<lambda>x. fn x = fn e) (e # col) = ?G" by simp
    have d: "filter (\<lambda>x. fn x = fn e) (concat (map c (itervalues (group_by fn ?R)))) = []"
      using IH[unfolded True] b by (simp only: if_True simp_thms)
    have "filter (\<lambda>x. fn x = fn e) (c ?G @ concat (map c (itervalues (group_by fn ?R)))) = c ?G"
      by (simp only: filter_append a d append_Nil2)
    then show ?thesis unfolding True unfold c by simp
  next
    case False
    have a: "filter (\<lambda>x. fn x = k) (c ?G) = []" using all_G False by (rule filter_key_none)
    have b: "filter (\<lambda>x. fn x = k) ?R = filter (\<lambda>x. fn x = k) col"
      using False by (rule filter_filter_neq)
    from False have "fn e \<noteq> k" by blast
    then have c: "filter (\<lambda>x. fn x = k) (e # col) = filter (\<lambda>x. fn x = k) col" by simp
    from IH have d: "filter (\<lambda>x. fn x = k) (concat (map c (itervalues (group_by fn ?R)))) =
         (if filter (\<lambda>x. fn x = k) col = [] then [] else c (filter (\<lambda>x. fn x = k) col))"
      unfolding b .
    show ?thesis unfolding unfold c by (simp only: filter_append a d append_Nil)
  qed
qed

subsection \<open>The pure compaction, row by row\<close>

lemma compressed_seq_nonempty: "seq \<noteq> [] \<Longrightarrow> compressed_seq seq = Inr (seq_kept seq)"
  by (cases seq) (simp_all add: seq_kept_def compressed_seq_def)

lemma compressed_loop_total:
  "(\<forall>seq \<in> set seqs. seq \<noteq> []) \<Longrightarrow>
   compressed_loop seqs acc = Inr (acc @ concat (map seq_kept seqs))"
  by (induction seqs arbitrary: acc) (simp_all add: compressed_seq_nonempty)

lemma seq_kept_subset: "set (seq_kept seq) \<subseteq> set seq"
  by (cases seq) (auto simp: seq_kept_def compressed_seq_def)

lemma seq_kept_length: "length (seq_kept seq) \<le> 1"
  by (cases seq) (auto simp: seq_kept_def compressed_seq_def)

lemma seq_kept_Nil: "seq_kept [] = []"
  by (simp add: seq_kept_def compressed_seq_def)

lemma sort_key_short: "length xs \<le> 1 \<Longrightarrow> sort_key f xs = xs"
  by (cases xs) auto

lemma sort_key_seq_kept: "sort_key f (seq_kept seq) = seq_kept seq"
  by (rule sort_key_short[OF seq_kept_length])

lemma compressed_operations_eq:
  "compressed_operations ops =
     Inr (sort_key order (concat (map seq_kept (itervalues (group_by row_key (sort_key order ops))))))"
  unfolding compressed_operations_def Let_def
  by (subst compressed_loop_total) (auto dest: group_by_nonempty)

lemma compressed_operations_run:
  assumes "compressed_operations ops = Inr out"
  shows "filter (\<lambda>op. row_key op = k) out =
         seq_kept (filter (\<lambda>op. row_key op = k) (sort_key order ops))"
proof -
  let ?run = "filter (\<lambda>op. row_key op = k) (sort_key order ops)"
  from assms have out: "out = sort_key order (concat (map seq_kept (itervalues (group_by row_key (sort_key order ops)))))"
    by (simp add: compressed_operations_eq)
  have "filter (\<lambda>op. row_key op = k) out =
        sort_key order (if ?run = [] then [] else seq_kept ?run)"
    unfolding out
    by (simp only: filter_sort filter_concat_groups[of seq_kept, OF seq_kept_subset])
  also have "\<dots> = seq_kept ?run"
    by (cases "?run = []") (simp_all add: sort_key_seq_kept seq_kept_Nil)
  finally show ?thesis .
qed

lemma seq_kept_Cons:
  "seq_kept (op0 # rest) =
     (if command op0 = ''i'' \<and> list_all (\<lambda>op. command op = ''u'') rest then [op0]
      else if command op0 = ''u''
      then (if list_all (\<lambda>op. command op = ''u'') rest then [op0]
            else if command (last (op0 # rest)) = ''d'' then [last (op0 # rest)]
            else [])
      else if rest = [] then [op0]
      else [])"
  by (simp add: seq_kept_def compressed_seq_def andmap_def)

lemma compressed_operations_sorted:
  "compressed_operations ops = Inr out \<Longrightarrow> sorted (map order out)"
  by (auto simp: compressed_operations_eq)

subsection \<open>The destructive compaction, row by row\<close>

lemma fold_session_delete:
  "fold session_delete ds t = filter (\<lambda>r. order r \<notin> order ` set ds) t"
  by (induction ds arbitrary: t) (auto simp: session_delete_def intro: filter_cong)

lemma delete_loop_filter:
  "delete_loop seqs t = filter (\<lambda>r. order r \<notin> order ` set (concat (map deleted_of seqs))) t"
proof (induction seqs arbitrary: t)
  case Nil
  then show ?case by (simp add: delete_loop_def)
next
  case (Cons seq seqs)
  have step: "delete_loop (seq # seqs) t =
              delete_loop seqs (filter (\<lambda>r. order r \<notin> order ` set (deleted_of seq)) t)"
    by (simp add: delete_loop_def deleted_of_def fold_session_delete)
  show ?case unfolding step Cons.IH by (auto intro: filter_cong)
qed

lemma seq_deletions_subset: "set (seq_deletions seq) \<subseteq> set seq"
  by (cases seq) (auto simp: seq_deletions_def dest: in_set_butlastD)

lemma deleted_of_subset: "set (deleted_of seq) \<subseteq> set seq"
  using seq_deletions_subset[of seq] by (auto simp: deleted_of_def)

lemma deleted_of_Nil: "deleted_of [] = []"
  by (simp add: deleted_of_def)

lemma distinct_map_sort_key: "distinct (map f (sort_key g xs)) = distinct (map f xs)"
proof -
  have "mset (map f (sort_key g xs)) = mset (map f xs)" by simp
  then show ?thesis by (rule mset_eq_imp_distinct_iff)
qed

lemma distinct_unversioned:
  "distinct (map order table) \<Longrightarrow> distinct (map order (unversioned table))"
  by (simp add: unversioned_def distinct_map_sort_key distinct_map_filter rev_map[symmetric])

lemma unversioned_filter:
  "unversioned (filter P table) = filter P (unversioned table)"
proof -
  have "filter (\<lambda>op. version_id op = None) (filter P table) =
        filter P (filter (\<lambda>op. version_id op = None) table)"
    by (induction table) auto
  then show ?thesis
    unfolding unversioned_def by (simp only: filter_sort[symmetric] rev_filter)
qed

lemma stored_run_distinct:
  "distinct (map order table) \<Longrightarrow> distinct (map order (stored_run k table))"
  by (simp add: stored_run_def distinct_unversioned distinct_map_filter)

lemma deleted_groups_run:
  "filter (\<lambda>op. row_key op = k)
     (concat (map deleted_of (itervalues (group_by row_key (unversioned table))))) =
   deleted_of (stored_run k table)"
proof (cases "stored_run k table = []")
  case True
  then show ?thesis
    unfolding stored_run_def
    by (simp only: filter_concat_groups[of deleted_of, OF deleted_of_subset] deleted_of_Nil if_True simp_thms)
next
  case False
  then show ?thesis
    unfolding stored_run_def
    by (simp only: filter_concat_groups[of deleted_of, OF deleted_of_subset] if_False)
qed

lemma groups_concat_subset:
  assumes sub: "\<And>g. set (c g) \<subseteq> set g"
  shows "set (concat (map c (itervalues (group_by f xs)))) \<subseteq> set xs"
proof
  fix x assume "x \<in> set (concat (map c (itervalues (group_by f xs))))"
  then obtain k g where kg: "(k, g) \<in> set (group_by f xs)" and x: "x \<in> set (c g)"
    by (auto simp: itervalues_def)
  from group_by_member[OF kg] have "set g \<subseteq> set xs" by auto
  with x sub[of g] show "x \<in> set xs" by blast
qed

lemma compress_table:
  assumes "compress table = Inr table'"
  shows "table' = filter (\<lambda>r. order r \<notin> order ` set (concat (map deleted_of
                     (itervalues (group_by row_key (unversioned table)))))) table"
  using assms by (simp add: compress_def Let_def delete_loop_filter split: sum.splits)

lemma compress_stored_run:
  assumes dist: "distinct (map order table)" and c: "compress table = Inr table'"
  shows "stored_run k table' = seq_remaining (stored_run k table)"
proof -
  let ?U = "unversioned table"
  let ?D = "concat (map deleted_of (itervalues (group_by row_key ?U)))"
  have inj: "inj_on order (set ?U)"
    using distinct_unversioned[OF dist] by (simp add: distinct_map)
  have DU: "set ?D \<subseteq> set ?U" by (rule groups_concat_subset[OF deleted_of_subset])
  have Dk: "filter (\<lambda>op. row_key op = k) ?D = deleted_of (stored_run k table)"
    by (rule deleted_groups_run)
  have t': "table' = filter (\<lambda>r. order r \<notin> order ` set ?D) table"
    by (rule compress_table[OF c])
  have "stored_run k table' =
        filter (\<lambda>op. row_key op = k) (filter (\<lambda>r. order r \<notin> order ` set ?D) ?U)"
    unfolding stored_run_def t' unversioned_filter ..
  also have "\<dots> = filter (\<lambda>r. order r \<notin> order ` set ?D) (stored_run k table)"
    unfolding stored_run_def by (simp add: conj_commute)
  also have "\<dots> = filter (\<lambda>r. r \<notin> set (deleted_of (stored_run k table))) (stored_run k table)"
  proof (rule filter_cong[OF refl])
    fix r assume r: "r \<in> set (stored_run k table)"
    then have rU: "r \<in> set ?U" and rk: "row_key r = k" by (auto simp: stored_run_def)
    have "order r \<in> order ` set ?D \<longleftrightarrow> r \<in> set ?D"
    proof
      assume "order r \<in> order ` set ?D"
      then obtain d where d: "d \<in> set ?D" "order d = order r" by (metis imageE)
      with DU have "d \<in> set ?U" by blast
      with inj rU d(2) have "d = r" by (auto dest: inj_onD)
      with d show "r \<in> set ?D" by simp
    qed simp
    also have "\<dots> \<longleftrightarrow> r \<in> set (filter (\<lambda>op. row_key op = k) ?D)" using rk by simp
    finally show "(order r \<notin> order ` set ?D) = (r \<notin> set (deleted_of (stored_run k table)))"
      unfolding Dk by simp
  qed
  finally show ?thesis by (simp add: seq_remaining_def)
qed

lemma filter_notin_butlast:
  "distinct (ys @ [z]) \<Longrightarrow> filter (\<lambda>r. r \<notin> set ys) (ys @ [z]) = [z]"
  by (simp add: filter_empty_conv)

lemma filter_notin_self: "filter (\<lambda>r. r \<notin> set xs) xs = []"
  by (simp add: filter_empty_conv)

lemma remaining_butlast:
  assumes "distinct seq" "seq \<noteq> []"
  shows "filter (\<lambda>r. r \<notin> set (butlast seq)) seq = [last seq]"
proof -
  from assms(2) have s: "butlast seq @ [last seq] = seq" by simp
  from assms(1) have "distinct (butlast seq @ [last seq])" unfolding s .
  from filter_notin_butlast[OF this] show ?thesis unfolding s .
qed

lemma remaining_tl:
  assumes "distinct seq" "seq \<noteq> []"
  shows "filter (\<lambda>r. r \<notin> set (tl seq)) seq = [hd seq]"
  using assms by (cases seq) (simp_all add: filter_empty_conv)

lemma seq_deletions_cases:
  "seq_deletions seq = [] \<or> seq_deletions seq = butlast seq \<or>
   seq_deletions seq = seq \<or> seq_deletions seq = tl seq"
  by (simp add: seq_deletions_def)

lemma seq_remaining_dichotomy:
  assumes "distinct seq"
  shows "(deleted_of seq = [] \<and> seq_remaining seq = seq) \<or> length (seq_remaining seq) \<le> 1"
proof (cases "length seq > 1")
  case False
  then show ?thesis by (simp add: deleted_of_def seq_remaining_def)
next
  case True
  then have ne: "seq \<noteq> []" by auto
  from True have d: "deleted_of seq = seq_deletions seq" by (simp add: deleted_of_def)
  from seq_deletions_cases[of seq] show ?thesis
    unfolding seq_remaining_def d
    by (auto simp: remaining_butlast[OF assms ne] remaining_tl[OF assms ne] filter_notin_self)
qed

subsection \<open>Idempotence\<close>

lemma assert_operation_sequence_ok:
  "assert_operation_sequence seq = Inr () \<longleftrightarrow>
     seq \<noteq> [] \<and> list_all (\<lambda>op. command op = ''u'') (butlast (tl seq))"
  by (cases seq) (simp_all add: assert_operation_sequence_def py_ne_def Let_def)

lemma group_by_complete:
  assumes "filter (\<lambda>x. f x = k) xs \<noteq> []"
  shows "(k, filter (\<lambda>x. f x = k) xs) \<in> set (group_by f xs)"
proof -
  from assms obtain x where "x \<in> set xs" "f x = k" by (auto simp: filter_empty_conv)
  then have "k \<in> f ` set xs" by blast
  then have "k \<in> fst ` set (group_by f xs)" by (simp only: group_by_keys)
  then obtain g where g: "(k, g) \<in> set (group_by f xs)" by force
  from group_by_member[OF g] g show ?thesis by simp
qed

lemma assert_all_iff:
  "assert_all seqs = Inr () \<longleftrightarrow> (\<forall>seq \<in> set seqs. assert_operation_sequence seq = Inr ())"
  by (induction seqs) (auto split: sum.splits)

lemma compress_validated:
  "compress table = Inr table' \<Longrightarrow>
   assert_all (itervalues (group_by row_key (unversioned table))) = Inr ()"
  by (auto simp: compress_def Let_def split: sum.splits)

lemma compress_unchanged:
  assumes "assert_all (itervalues (group_by row_key (unversioned table))) = Inr ()"
    and "concat (map deleted_of (itervalues (group_by row_key (unversioned table)))) = []"
  shows "compress table = Inr table"
  using assms by (simp add: compress_def Let_def delete_loop_filter)

lemma short_validated:
  "seq \<noteq> [] \<Longrightarrow> length seq \<le> 1 \<Longrightarrow> assert_operation_sequence seq = Inr ()"
  by (cases seq) (simp_all add: assert_operation_sequence_ok)

lemma compress_idempotent:
  assumes dist: "distinct (map order table)" and c: "compress table = Inr table'"
  shows "compress table' = Inr table'"
proof (rule compress_unchanged)
  let ?G = "itervalues (group_by row_key (unversioned table))"
  let ?G' = "itervalues (group_by row_key (unversioned table'))"
  have key: "assert_operation_sequence g = Inr () \<and> deleted_of g = []" if g: "g \<in> set ?G'" for g
  proof -
    from g obtain k where kg: "(k, g) \<in> set (group_by row_key (unversioned table'))"
      by (auto simp: itervalues_def)
    from group_by_member[OF kg] have g_run: "g = stored_run k table'" and ne: "g \<noteq> []"
      unfolding stored_run_def by blast+
    let ?s = "stored_run k table"
    have g_rem: "g = seq_remaining ?s" unfolding g_run by (rule compress_stored_run[OF dist c])
    have "distinct ?s" using stored_run_distinct[OF dist, of k] by (simp add: distinct_map)
    from seq_remaining_dichotomy[OF this]
    consider "deleted_of ?s = []" "seq_remaining ?s = ?s" | "length (seq_remaining ?s) \<le> 1"
      by blast
    then show ?thesis
    proof cases
      case 1
      with g_rem have gs: "g = ?s" by simp
      with ne have "(k, ?s) \<in> set (group_by row_key (unversioned table))"
        unfolding stored_run_def by (simp add: group_by_complete)
      then have "?s \<in> set ?G" by (force simp: itervalues_def)
      with compress_validated[OF c] have "assert_operation_sequence ?s = Inr ()"
        by (simp add: assert_all_iff)
      with 1 gs show ?thesis by simp
    next
      case 2
      with g_rem have "length g \<le> 1" by simp
      with ne show ?thesis by (simp add: short_validated deleted_of_def)
    qed
  qed
  from key show "assert_all ?G' = Inr ()" by (simp add: assert_all_iff)
  from key show "concat (map deleted_of ?G') = []" by simp
qed

lemma distinct_keys_if_short:
  "(\<And>k. length (filter (\<lambda>x. f x = k) xs) \<le> 1) \<Longrightarrow> distinct (map f xs)"
proof (induction xs)
  case Nil
  then show ?case by simp
next
  case (Cons x xs)
  have "length (filter (\<lambda>y. f y = k) xs) \<le> 1" for k
    using Cons.prems[of k] by (simp split: if_splits)
  then have d: "distinct (map f xs)" by (rule Cons.IH)
  have "f x \<notin> f ` set xs"
  proof
    assume "f x \<in> f ` set xs"
    then have "filter (\<lambda>y. f y = f x) xs \<noteq> []" by (auto simp: filter_empty_conv)
    then have "length (filter (\<lambda>y. f y = f x) xs) \<ge> 1" by (simp add: Suc_le_eq)
    with Cons.prems[of "f x"] show False by simp
  qed
  with d show ?case by simp
qed

lemma group_by_singletons:
  "distinct (map f xs) \<Longrightarrow> group_by f xs = map (\<lambda>x. (f x, [x])) xs"
proof (induction xs)
  case Nil
  then show ?case by simp
next
  case (Cons x xs)
  from Cons.prems have "f x \<notin> f ` set xs" by simp
  then have nin: "\<forall>y \<in> set xs. f y \<noteq> f x" by (metis imageI)
  then have a: "filter (\<lambda>y. f y = f x) xs = []" by (simp add: filter_empty_conv)
  from nin have b: "filter (\<lambda>y. f y \<noteq> f x) xs = xs" by (simp add: filter_id_conv)
  from Cons show ?case by (simp add: a b)
qed

lemma seq_kept_single: "seq_kept [x] = [x]"
  by (simp add: seq_kept_Cons)

lemma concat_seq_kept_singletons: "concat (map seq_kept (map (\<lambda>x. [x]) xs)) = xs"
  by (induction xs) (simp_all add: seq_kept_single)

lemma compressed_operations_idempotent:
  assumes "compressed_operations ops = Inr out"
  shows "compressed_operations out = Inr out"
proof -
  have sorted: "sorted (map order out)" by (rule compressed_operations_sorted[OF assms])
  have "length (filter (\<lambda>op. row_key op = k) out) \<le> 1" for k
    unfolding compressed_operations_run[OF assms] by (rule seq_kept_length)
  then have "distinct (map row_key out)" by (rule distinct_keys_if_short)
  then have g: "itervalues (group_by row_key out) = map (\<lambda>x. [x]) out"
    by (simp add: group_by_singletons itervalues_def comp_def)
  show ?thesis
    unfolding compressed_operations_eq
    by (simp only: sort_key_id_if_sorted[OF sorted] g concat_seq_kept_singletons)
qed

subsection \<open>The example table\<close>

lemma ex_table_distinct: "distinct (map order ex_table)"
  by (simp add: ex_table_def mk_op_def)

lemma ex_table_unversioned:
  "unversioned ex_table =
     [mk_op 9 10 ''d'', mk_op 8 10 ''u'', mk_op 7 9 ''u'', mk_op 6 9 ''u'',
      mk_op 5 8 ''d'', mk_op 4 8 ''i'', mk_op 3 7 ''u'', mk_op 2 7 ''u'', mk_op 1 7 ''i'']"
  by (simp add: unversioned_def ex_table_def mk_op_def)

lemma ex_table_compress: "compress ex_table = Inr ex_table'"
  unfolding compress_def ex_table_unversioned
  by (simp add: ex_table_def ex_table'_def mk_op_def row_key_def itervalues_def
      assert_operation_sequence_def py_ne_def delete_loop_def seq_deletions_def andmap_def
      session_delete_def)

subsection \<open>Replaying a compacted sequence\<close>

lemma replay_append:
  "replay live (xs @ ys) s =
     (case replay live xs s of None \<Rightarrow> None | Some s' \<Rightarrow> replay live ys s')"
  by (induction xs arbitrary: s) (auto split: option.splits)

lemma replay_updates_present:
  "list_all (\<lambda>op. command op = ''u'') us \<Longrightarrow>
   replay live us (Present c) = Some (Present (if us = [] then c else live))"
  by (induction us arbitrary: c) (auto simp: perform_row_def)

lemma replay_absent_update:
  "command x = ''u'' \<Longrightarrow> replay live (x # xs) Absent = None"
  by (simp add: perform_row_def)

lemma legal_long:
  assumes "legal_sequence (x # us @ [z])"
  shows "(command x = ''i'' \<or> command x = ''u'') \<and> list_all (\<lambda>op. command op = ''u'') us \<and>
         (command z = ''u'' \<or> command z = ''d'')"
  using assms by (auto simp: legal_sequence_def butlast_append)

lemma replay_long:
  assumes us: "list_all (\<lambda>op. command op = ''u'') us"
  shows "command x = ''i'' \<Longrightarrow> command z = ''u'' \<Longrightarrow>
           replay live (x # us @ [z]) Absent = Some (Present live)"
    and "command x = ''i'' \<Longrightarrow> command z = ''d'' \<Longrightarrow>
           replay live (x # us @ [z]) Absent = Some Absent"
    and "command x = ''u'' \<Longrightarrow> command z = ''u'' \<Longrightarrow>
           replay live (x # us @ [z]) (Present c) = Some (Present live)"
    and "command x = ''u'' \<Longrightarrow> command z = ''d'' \<Longrightarrow>
           replay live (x # us @ [z]) (Present c) = Some Absent"
  using us by (simp_all add: perform_row_def replay_append replay_updates_present)

lemma seq_kept_long:
  assumes us: "list_all (\<lambda>op. command op = ''u'') us"
  shows "command x = ''i'' \<Longrightarrow> command z = ''u'' \<Longrightarrow> seq_kept (x # us @ [z]) = [x]"
    and "command x = ''i'' \<Longrightarrow> command z = ''d'' \<Longrightarrow> seq_kept (x # us @ [z]) = []"
    and "command x = ''u'' \<Longrightarrow> command z = ''u'' \<Longrightarrow> seq_kept (x # us @ [z]) = [x]"
    and "command x = ''u'' \<Longrightarrow> command z = ''d'' \<Longrightarrow> seq_kept (x # us @ [z]) = [z]"
  using us by (simp_all add: seq_kept_Cons)

lemma replay_seq_kept:
  assumes legal: "legal_sequence run" and s: "s = Absent \<or> command (hd run) \<noteq> ''i''"
  shows "replay live (seq_kept run) s = replay live run s"
proof (cases run)
  case Nil
  then show ?thesis by (simp add: seq_kept_Nil)
next
  case (Cons x rest)
  show ?thesis
  proof (cases rest rule: rev_cases)
    case Nil
    with Cons show ?thesis by (simp add: seq_kept_single)
  next
    case (snoc us z)
    with Cons have run: "run = x # us @ [z]" by simp
    from legal_long[OF legal[unfolded run]]
    have x: "command x = ''i'' \<or> command x = ''u''"
      and us: "list_all (\<lambda>op. command op = ''u'') us"
      and z: "command z = ''u'' \<or> command z = ''d''" by simp_all
    have single: "replay live [y] t = perform_row live y t" for y t
      by (simp split: option.splits)
    show ?thesis
    proof (cases s)
      case Absent
      from x z consider
          "command x = ''i''" "command z = ''u''" | "command x = ''i''" "command z = ''d''"
        | "command x = ''u''" by blast
      then show ?thesis
      proof cases
        case 1
        show ?thesis
          unfolding run Absent seq_kept_long(1)[OF us 1] replay_long(1)[OF us 1] single
          using 1 by (simp add: perform_row_def)
      next
        case 2
        show ?thesis
          unfolding run Absent seq_kept_long(2)[OF us 2] replay_long(2)[OF us 2]
          by simp
      next
        case 3
        from z have "\<exists>y ys. seq_kept (x # us @ [z]) = y # ys \<and> (command y = ''u'' \<or> command y = ''d'')"
          using seq_kept_long(3,4)[OF us 3] 3 by auto
        then obtain y ys where k: "seq_kept (x # us @ [z]) = y # ys"
          and y: "command y = ''u'' \<or> command y = ''d''" by blast
        from y have b: "replay live (y # ys) Absent = None"
          by (auto simp: perform_row_def)
        have a: "replay live (x # us @ [z]) Absent = None"
          by (rule replay_absent_update[OF 3])
        show ?thesis
          unfolding run Absent k a b ..
      qed
    next
      case (Present c)
      with s run have "command x \<noteq> ''i''" by simp
      with x have xu: "command x = ''u''" by simp
      from z show ?thesis
      proof
        assume zu: "command z = ''u''"
        show ?thesis
          unfolding run Present seq_kept_long(3)[OF us xu zu] replay_long(3)[OF us xu zu] single
          using xu by (simp add: perform_row_def)
      next
        assume zd: "command z = ''d''"
        show ?thesis
          unfolding run Present seq_kept_long(4)[OF us xu zd] replay_long(4)[OF us xu zd] single
          using zd by (simp add: perform_row_def)
      qed
    qed
  qed
qed

lemma seq_remaining_long:
  assumes d: "distinct (z # rev us @ [x])" and us: "list_all (\<lambda>op. command op = ''u'') us"
  shows "command x = ''i'' \<Longrightarrow> command z = ''u'' \<Longrightarrow> seq_remaining (z # rev us @ [x]) = [x]"
    and "command x = ''i'' \<Longrightarrow> command z = ''d'' \<Longrightarrow> seq_remaining (z # rev us @ [x]) = []"
    and "command x = ''u'' \<Longrightarrow> command z = ''u'' \<Longrightarrow> seq_remaining (z # rev us @ [x]) = [z]"
    and "command x = ''u'' \<Longrightarrow> command z = ''d'' \<Longrightarrow> seq_remaining (z # rev us @ [x]) = [z]"
proof -
  let ?seq = "z # rev us @ [x]"
  have bl: "butlast ?seq = z # rev us" by (simp add: butlast_append)
  have la: "last ?seq = x" by simp
  have del: "deleted_of ?seq = seq_deletions ?seq" by (simp add: deleted_of_def)
  have rb: "filter (\<lambda>r. r \<notin> set (z # rev us)) ?seq = [x]"
    using remaining_butlast[OF d] by (simp only: bl la) simp
  have rt: "filter (\<lambda>r. r \<notin> set (rev us @ [x])) ?seq = [z]"
    using remaining_tl[OF d] by simp
  have rs: "filter (\<lambda>r. r \<notin> set ?seq) ?seq = []" by (rule filter_notin_self)
  have rus: "list_all (\<lambda>op. command op = ''u'') (rev us)" using us by (simp add: list_all_iff)
  show "command x = ''i'' \<Longrightarrow> command z = ''u'' \<Longrightarrow> seq_remaining ?seq = [x]"
    unfolding seq_remaining_def del seq_deletions_def bl la andmap_def using rus rb by simp
  show "command x = ''i'' \<Longrightarrow> command z = ''d'' \<Longrightarrow> seq_remaining ?seq = []"
    unfolding seq_remaining_def del seq_deletions_def bl la andmap_def using rs by simp
  show "command x = ''u'' \<Longrightarrow> command z = ''u'' \<Longrightarrow> seq_remaining ?seq = [z]"
    unfolding seq_remaining_def del seq_deletions_def bl la andmap_def using rus rt by simp
  show "command x = ''u'' \<Longrightarrow> command z = ''d'' \<Longrightarrow> seq_remaining ?seq = [z]"
    unfolding seq_remaining_def del seq_deletions_def bl la andmap_def using rt by simp
qed

lemma seq_remaining_short: "length seq \<le> 1 \<Longrightarrow> seq_remaining seq = seq"
  by (simp add: seq_remaining_def deleted_of_def)

lemma replay_seq_remaining:
  assumes d: "distinct seq" and legal: "legal_sequence (rev seq)"
    and s: "s = Absent \<or> command (last seq) \<noteq> ''i''"
  shows "replay live (rev (seq_remaining seq)) s = replay live (rev seq) s"
proof (cases "rev seq")
  case Nil
  then show ?thesis by (simp add: seq_remaining_short)
next
  case (Cons x rest)
  show ?thesis
  proof (cases rest rule: rev_cases)
    case Nil
    with Cons have "seq = [x]" by simp
    then show ?thesis by (simp add: seq_remaining_short)
  next
    case (snoc us z)
    with Cons have run: "rev seq = x # us @ [z]" by simp
    then have "rev (rev seq) = rev (x # us @ [z])" by (rule arg_cong)
    then have seq: "seq = z # rev us @ [x]" by simp
    from d have d': "distinct (z # rev us @ [x])" unfolding seq .
    from legal_long[OF legal[unfolded run]]
    have x: "command x = ''i'' \<or> command x = ''u''"
      and us: "list_all (\<lambda>op. command op = ''u'') us"
      and z: "command z = ''u'' \<or> command z = ''d''" by simp_all
    have single: "replay live [y] t = perform_row live y t" for y t
      by (simp split: option.splits)
    note rem = seq_remaining_long[OF d' us]
    show ?thesis
    proof (cases s)
      case Absent
      from x z consider
          "command x = ''i''" "command z = ''u''" | "command x = ''i''" "command z = ''d''"
        | "command x = ''u''" by blast
      then show ?thesis
      proof cases
        case 1
        show ?thesis
          unfolding run Absent replay_long(1)[OF us 1] unfolding seq rem(1)[OF 1]
          using 1 by (simp add: perform_row_def)
      next
        case 2
        show ?thesis
          unfolding run Absent replay_long(2)[OF us 2] unfolding seq rem(2)[OF 2]
          by simp
      next
        case 3
        from z have k: "seq_remaining (z # rev us @ [x]) = [z]"
          using rem(3,4)[OF 3] by auto
        from z have b: "replay live [z] Absent = None"
          by (auto simp: perform_row_def)
        have a: "replay live (x # us @ [z]) Absent = None"
          by (rule replay_absent_update[OF 3])
        show ?thesis
          unfolding run Absent a unfolding seq k using b by simp
      qed
    next
      case (Present c)
      with s seq have "command x \<noteq> ''i''" by simp
      with x have xu: "command x = ''u''" by simp
      from z show ?thesis
      proof
        assume zu: "command z = ''u''"
        show ?thesis
          unfolding run Present replay_long(3)[OF us xu zu] unfolding seq rem(3)[OF xu zu]
          using zu by (simp add: perform_row_def)
      next
        assume zd: "command z = ''d''"
        show ?thesis
          unfolding run Present replay_long(4)[OF us xu zd] unfolding seq rem(4)[OF xu zd]
          using zd by (simp add: perform_row_def)
      qed
    qed
  qed
qed

subsection \<open>The push handler\<close>

lemma next_order_snoc:
  "order op = next_order table \<Longrightarrow> next_order (table @ [op]) = next_order table + 1"
  by (cases "table = []") (simp_all add: next_order_def max_def)

lemma next_order_above: "op \<in> set table \<Longrightarrow> order op < next_order table"
proof -
  assume a: "op \<in> set table"
  then have "order op \<le> Max (set (map order table))" by (intro Max_ge) auto
  with a show ?thesis by (auto simp: next_order_def)
qed

lemma insert_operations_eq:
  "insert_operations vid ops table =
     table @ map (\<lambda>(i, op). op\<lparr>order := next_order table + int i, version_id := Some vid\<rparr>)
               (enumerate 0 ops)"
proof (induction ops arbitrary: table)
  case Nil
  then show ?case by simp
next
  case (Cons op ops)
  let ?op' = "op\<lparr>order := next_order table, version_id := Some vid\<rparr>"
  have n: "next_order (table @ [?op']) = next_order table + 1"
    by (rule next_order_snoc) simp
  have "map (\<lambda>(i, op). op\<lparr>order := next_order table + 1 + int i, version_id := Some vid\<rparr>)
          (enumerate 0 ops) =
        map (\<lambda>(i, op). op\<lparr>order := next_order table + int i, version_id := Some vid\<rparr>)
          (enumerate (Suc 0) ops)"
    by (simp add: enumerate_Suc_eq[of 0] split_def apfst_def map_prod_def add.assoc add.commute)
  then show ?case
    by (simp add: Cons.IH n)
qed

lemma perform_all_append:
  "perform_all perform message (pre @ rest) d =
     (case perform_all perform message pre d of
        (Some e, d') \<Rightarrow> (Some e, d')
      | (None, d') \<Rightarrow> perform_all perform message rest d')"
  by (induction pre arbitrary: d) (auto split: prod.splits option.splits)

lemma next_version_id_above:
  "v \<in> set (versions d) \<Longrightarrow> v_version_id v < next_version_id d"
proof -
  assume a: "v \<in> set (versions d)"
  then have "v_version_id v \<le> Max (set (map v_version_id (versions d)))"
    by (intro Max_ge) auto
  with a show ?thesis by (auto simp: next_version_id_def get_latest_version_id_def)
qed

lemma handle_push_rejected_unchanged:
  assumes "handle_push parse islegit perform now data s = (Inl e, s')"
  shows "db s' = db s"
  using assms
  by (auto simp: handle_push_def with_transaction_def split: prod.splits sum.splits)

lemma ex_latest: "get_latest_version_id (db ex_server) = Some 4"
  by (simp add: get_latest_version_id_def ex_server_def ex_versions_def)

lemma ex_latest_empty: "get_latest_version_id (db ex_server_empty) = Some 4"
  by (simp add: get_latest_version_id_def ex_server_empty_def ex_versions_def)

lemma ex_push_accepted:
  "handle_push ex_parse ex_islegit ex_perform 30 Map.empty ex_server = (Inr 5, ex_server_pushed)"
  unfolding handle_push_def with_transaction_def handle_push_body_def
  by (simp add: ex_parse_def ex_latest)
     (simp add: ex_message_def ex_islegit_def ex_server_def ex_perform_def mk_op_def row_key_def
        next_version_id_def get_latest_version_id_def ex_versions_def ex_stored_def
        next_order_def ex_server_pushed_def)

lemma ex_perform_first:
  "perform_all ex_perform ex_message [mk_op 11 8 ''i''] (db ex_server_empty) =
     (None, \<lparr>versions = ex_versions, sync_operations = ex_stored, tracked = [(8, 1)]\<rparr>)"
  by (simp add: ex_perform_def ex_server_empty_def mk_op_def row_key_def)

lemma ex_perform_second:
  "ex_perform (mk_op 13 9 ''u'') ex_message
     \<lparr>versions = ex_versions, sync_operations = ex_stored, tracked = [(8, 1)]\<rparr> =
     (Some (OperationError [Text ''row missing'', Op (mk_op 13 9 ''u'')]),
      \<lparr>versions = ex_versions, sync_operations = ex_stored, tracked = [(8, 1)]\<rparr>)"
  by (simp add: ex_perform_def mk_op_def row_key_def)

text \<open>
  A message whose \<open>latest_version_id\<close> is \<^verbatim>\<open>None\<close>, pushed to a ledger that has
  versions, is not rejected with \<open>PushRejected\<close>: formatting the reason raises
  \<open>TypeError\<close>.
\<close>

lemma handle_push_none_latest:
  assumes "parse data = Inr message" and "latest_version_id message = None"
    and "get_latest_version_id (db s) = Some n"
  shows "handle_push parse islegit perform now data s = (Inl (Raised TypeError), s)"
  using assms by (simp add: handle_push_def with_transaction_def handle_push_body_def)

subsection \<open>The pull handler\<close>

lemma fold_add_version:
  "fold (\<lambda>v m. add_version fetch d v swell m) vs m =
     m\<lparr>pm_versions := pm_versions m @ vs,
       pm_operations := pm_operations m @
         concat (map (\<lambda>v. filter (\<lambda>op. version_id op = Some (v_version_id v))
                              (sync_operations d)) vs),
       pm_payload := pm_payload m @
         (if swell
          then concat (map (\<lambda>v. List.map_filter (fetch (tracked d))
                                   (filter (\<lambda>op. version_id op = Some (v_version_id v))
                                      (sync_operations d))) vs)
          else [])\<rparr>"
  by (induction vs arbitrary: m) (simp_all add: add_version_def Let_def)

lemma py_int_raises:
  "py_int int_of_str v = Inl e \<Longrightarrow> e = TypeError \<or> e = ValueError \<or> e = OverflowError"
  by (auto simp: py_int_def split: reqval.splits pyfloat.splits option.splits)

lemma py_int_absent: "py_int int_of_str NoneV = Inl TypeError"
  by (simp add: py_int_def)

lemma handle_pull_all:
  assumes "py_int int_of_str
             (case data ''latest_version_id'' of None \<Rightarrow> NoneV | Some v \<Rightarrow> v) = Inl e"
    and "e = ValueError \<or> e = TypeError"
  shows "\<exists>m. handle_pull int_of_str bindable fetch data extra_data d = Inr m \<and>
           pm_versions m = versions d \<and>
           pm_payload m =
             (if data ''fast_forward'' = None
              then concat (map (\<lambda>v. List.map_filter (fetch (tracked d))
                                       (filter (\<lambda>op. version_id op = Some (v_version_id v))
                                          (sync_operations d))) (pm_versions m))
              else [])"
  using assms by (auto simp: handle_pull_def Let_def fold_add_version)

lemma handle_pull_above:
  assumes "py_int int_of_str
             (case data ''latest_version_id'' of None \<Rightarrow> NoneV | Some v \<Rightarrow> v) = Inr n"
    and "bindable n"
  shows "\<exists>m. handle_pull int_of_str bindable fetch data extra_data d = Inr m \<and>
           pm_versions m = filter (\<lambda>v. n < v_version_id v) (versions d) \<and>
           pm_payload m =
             (if data ''fast_forward'' = None
              then concat (map (\<lambda>v. List.map_filter (fetch (tracked d))
                                       (filter (\<lambda>op. version_id op = Some (v_version_id v))
                                          (sync_operations d))) (pm_versions m))
              else [])"
  using assms by (simp add: handle_pull_def Let_def fold_add_version)

lemma handle_pull_never_rejects:
  "handle_pull int_of_str bindable fetch data extra_data d \<noteq> Inl (PullRejected args) \<and>
   handle_pull int_of_str bindable fetch data extra_data d \<noteq> Inl (PushRejected args)"
  by (auto simp: handle_pull_def Let_def split: sum.splits exc.splits option.splits if_splits)

text \<open>
  The conversion of a float infinity, and an integer the database driver cannot bind, are
  not caught: \<^verbatim>\<open>handle_pull\<close> raises \<open>OverflowError\<close>.
\<close>

lemma handle_pull_overflow:
  assumes "data ''latest_version_id'' = Some v"
    and "v = FloatV PosInf \<or> v = FloatV NegInf \<or> (py_int int_of_str v = Inr n \<and> \<not> bindable n)"
  shows "handle_pull int_of_str bindable fetch data extra_data d = Inl (Raised OverflowError)"
  using assms by (auto simp: handle_pull_def Let_def py_int_def)

lemma filter_above_latest:
  assumes "get_latest_version_id d = Some n"
  shows "filter (\<lambda>v. n < v_version_id v) (versions d) = []"
proof -
  from assms have ne: "versions d \<noteq> []" and n: "n = Max (set (map v_version_id (versions d)))"
    by (auto simp: get_latest_version_id_def split: if_splits)
  have "v_version_id v \<le> n" if "v \<in> set (versions d)" for v
    unfolding n using that by (intro Max_ge) auto
  then show ?thesis by (fastforce simp: filter_empty_conv)
qed

subsection \<open>The enumeration order of the groups\<close>

text \<open>
  The order in which the dictionary of groups is enumerated does not matter: for
  operations with distinct \<open>order\<close>, any enumeration gives the result of
  \<^verbatim>\<open>compressed_operations\<close>; and any enumeration gives the validation and the
  deletions of \<^verbatim>\<open>compress\<close>.
\<close>

lemma mset_concat_map:
  "mset (concat (map f xs)) = sum_mset (image_mset (\<lambda>x. mset (f x)) (mset xs))"
  by (induction xs) simp_all

lemma compressed_operations_iteration_order:
  assumes d: "distinct (map order ops)"
    and p: "mset seqs = mset (itervalues (group_by row_key (sort_key order ops)))"
  shows "compressed_loop seqs [] = Inr (concat (map seq_kept seqs)) \<and>
         Inr (sort_key order (concat (map seq_kept seqs))) = compressed_operations ops"
proof -
  let ?G = "itervalues (group_by row_key (sort_key order ops))"
  from p have s: "set seqs = set ?G" by (rule mset_eq_setD)
  then have ne: "\<forall>seq \<in> set seqs. seq \<noteq> []" by (auto dest: group_by_nonempty)
  have 1: "compressed_loop seqs [] = Inr (concat (map seq_kept seqs))"
    using compressed_loop_total[OF ne, of "[]"] by simp
  have m: "mset (concat (map seq_kept seqs)) = mset (concat (map seq_kept ?G))"
    unfolding mset_concat_map p ..
  have sub: "set (concat (map seq_kept seqs)) \<subseteq> set ops"
  proof -
    have "set (concat (map seq_kept seqs)) = set (concat (map seq_kept ?G))"
      using m by (rule mset_eq_setD)
    also have "\<dots> \<subseteq> set (sort_key order ops)"
      by (rule groups_concat_subset[OF seq_kept_subset])
    finally show ?thesis by simp
  qed
  from d have "inj_on order (set ops)" by (simp add: distinct_map)
  then have inj: "inj_on order (set (concat (map seq_kept seqs)))"
    using sub by (rule inj_on_subset)
  have "sort_key order (concat (map seq_kept seqs)) = sort_key order (concat (map seq_kept ?G))"
  proof (rule sort_key_inj_key_eq[OF _ inj])
    show "mset (concat (map seq_kept seqs)) = mset (sort_key order (concat (map seq_kept ?G)))"
      using m by simp
    show "sorted (map order (sort_key order (concat (map seq_kept ?G))))" by simp
  qed
  with 1 show ?thesis by (simp add: compressed_operations_eq)
qed

lemma compress_iteration_order:
  assumes p: "mset seqs = mset (itervalues (group_by row_key (unversioned table)))"
  shows "(assert_all seqs = Inr ()) =
           (assert_all (itervalues (group_by row_key (unversioned table))) = Inr ()) \<and>
         delete_loop seqs table =
           delete_loop (itervalues (group_by row_key (unversioned table))) table"
proof -
  from p have s: "set seqs = set (itervalues (group_by row_key (unversioned table)))"
    by (rule mset_eq_setD)
  then have "set (concat (map deleted_of seqs)) =
             set (concat (map deleted_of (itervalues (group_by row_key (unversioned table)))))"
    by simp
  then show ?thesis by (simp add: assert_all_iff delete_loop_filter s)
qed

lemma enumerates_values_py27: "enumerates_values py27_itervalues"
proof -
  have "mset (map snd (sort_key f d)) = mset (map snd d)" for f :: "py_key \<times> 'a \<Rightarrow> nat" and d
    by (metis mset_map mset_sort)
  then show ?thesis by (simp add: enumerates_values_def py27_itervalues_def)
qed

lemma enumerates_values_itervalues: "enumerates_values itervalues"
  by (simp add: enumerates_values_def itervalues_def)

lemma compressed_operations_by_itervalues:
  "compressed_operations_by itervalues ops = compressed_operations ops"
  by (simp add: compressed_operations_by_def compressed_operations_def)

lemma compressed_operations_by_distinct:
  assumes e: "enumerates_values enum" and d: "distinct (map order ops)"
  shows "compressed_operations_by enum ops = compressed_operations ops"
proof -
  let ?G = "group_by row_key (sort_key order ops)"
  from e have p: "mset (enum ?G) = mset (itervalues ?G)"
    by (simp add: enumerates_values_def itervalues_def)
  from compressed_operations_iteration_order[OF d p]
  have l: "compressed_loop (enum ?G) [] = Inr (concat (map seq_kept (enum ?G)))"
    and r: "Inr (sort_key order (concat (map seq_kept (enum ?G)))) = compressed_operations ops"
    by simp_all
  show ?thesis
    unfolding compressed_operations_by_def Let_def l using r by simp
qed

lemma compressed_operations_distinct:
  assumes d: "distinct (map order ops)" and out: "compressed_operations ops = Inr out"
  shows "distinct (map order out)"
proof -
  have "length (filter (\<lambda>op. row_key op = k) out) \<le> 1" for k
    unfolding compressed_operations_run[OF out] by (rule seq_kept_length)
  then have "distinct (map row_key out)" by (rule distinct_keys_if_short)
  then have dout: "distinct out" by (simp add: distinct_map)
  from out have "set out \<subseteq> set (sort_key order ops)"
    using groups_concat_subset[OF seq_kept_subset, of row_key "sort_key order ops"]
    by (auto simp: compressed_operations_eq)
  then have "set out \<subseteq> set ops" by simp
  moreover from d have "inj_on order (set ops)" by (simp add: distinct_map)
  ultimately have "inj_on order (set out)" by (rule inj_on_subset[rotated])
  with dout show ?thesis by (simp add: distinct_map)
qed

lemma compressed_operations_by_idempotent:
  assumes e: "enumerates_values enum" and d: "distinct (map order ops)"
  shows "\<exists>out. compressed_operations_by enum ops = Inr out \<and>
               compressed_operations_by enum out = Inr out"
proof -
  obtain out where out: "compressed_operations ops = Inr out"
    by (simp add: compressed_operations_eq)
  have 1: "compressed_operations_by enum ops = Inr out"
    using compressed_operations_by_distinct[OF e d] out by simp
  have d': "distinct (map order out)" by (rule compressed_operations_distinct[OF d out])
  have 2: "compressed_operations_by enum out = Inr out"
    using compressed_operations_by_distinct[OF e d'] compressed_operations_idempotent[OF out]
    by simp
  from 1 2 show ?thesis by blast
qed

section \<open>Claims\<close>

text \<open>
  C2. The validator is meant to reject a sequence of more than one element whose oldest
  element is a Delete or whose newest element is an Insert. Here it is run on the sequence
  (newest first) of a row that was deleted and whose primary key was then used again for an
  Insert: no assertion fails, because the two assertions on the ends compare the Operation
  objects, not their commands, with the strings.
\<close>

theorem assert_operation_sequence_oldest_delete:
  "assert_operation_sequence [mk_op 2 7 ''i'', mk_op 1 7 ''d''] = Inr ()"
  by (simp add: assert_operation_sequence_def py_ne_def mk_op_def)

text \<open>
  C4. \<^verbatim>\<open>compressed_operations\<close> returns a list sorted ascending by \<open>order\<close>, in
  which every per-row run has left: its Insert, when the Insert is followed only by Updates;
  its oldest Update, when the run is all Updates; its Delete, when the run is Updates ending
  in a Delete; its only element, when it has one element.
\<close>

theorem compressed_operations_per_row:
  "\<exists>out. compressed_operations ops = Inr out \<and> sorted (map order out) \<and>
     (\<forall>k i us. row_run k ops = i # us \<and> command i = ''i'' \<and>
         list_all (\<lambda>op. command op = ''u'') us \<longrightarrow>
         filter (\<lambda>op. row_key op = k) out = [i]) \<and>
     (\<forall>k u us. row_run k ops = u # us \<and> command u = ''u'' \<and>
         list_all (\<lambda>op. command op = ''u'') us \<longrightarrow>
         filter (\<lambda>op. row_key op = k) out = [u]) \<and>
     (\<forall>k u us d. row_run k ops = u # us @ [d] \<and> command u = ''u'' \<and>
         list_all (\<lambda>op. command op = ''u'') us \<and> command d = ''d'' \<longrightarrow>
         filter (\<lambda>op. row_key op = k) out = [d]) \<and>
     (\<forall>k x. row_run k ops = [x] \<longrightarrow> filter (\<lambda>op. row_key op = k) out = [x])"
proof -
  obtain out where out: "compressed_operations ops = Inr out"
    by (simp add: compressed_operations_eq)
  have run: "\<And>k. filter (\<lambda>op. row_key op = k) out = seq_kept (row_run k ops)"
    unfolding row_run_def by (rule compressed_operations_run[OF out])
  have "sorted (map order out)" by (rule compressed_operations_sorted[OF out])
  moreover have "\<forall>k i us. row_run k ops = i # us \<and> command i = ''i'' \<and>
         list_all (\<lambda>op. command op = ''u'') us \<longrightarrow>
         filter (\<lambda>op. row_key op = k) out = [i]"
    by (simp add: run seq_kept_Cons)
  moreover have "\<forall>k u us. row_run k ops = u # us \<and> command u = ''u'' \<and>
         list_all (\<lambda>op. command op = ''u'') us \<longrightarrow>
         filter (\<lambda>op. row_key op = k) out = [u]"
    by (simp add: run seq_kept_Cons)
  moreover have "\<forall>k u us d. row_run k ops = u # us @ [d] \<and> command u = ''u'' \<and>
         list_all (\<lambda>op. command op = ''u'') us \<and> command d = ''d'' \<longrightarrow>
         filter (\<lambda>op. row_key op = k) out = [d]"
    by (simp add: run seq_kept_Cons)
  moreover have "\<forall>k x. row_run k ops = [x] \<longrightarrow> filter (\<lambda>op. row_key op = k) out = [x]"
    by (simp add: run seq_kept_Cons)
  ultimately show ?thesis using out by blast
qed

theorem compressed_operations_per_row_witness:
  "\<exists>out. compressed_operations
            [mk_op 3 7 ''u'', mk_op 1 7 ''i'', mk_op 4 8 ''d'', mk_op 2 7 ''u''] = Inr out \<and>
     sorted (map order out) \<and>
     filter (\<lambda>op. row_key op = (7, 1)) out = [mk_op 1 7 ''i''] \<and>
     filter (\<lambda>op. row_key op = (8, 1)) out = [mk_op 4 8 ''d'']"
proof -
  let ?ops = "[mk_op 3 7 ''u'', mk_op 1 7 ''i'', mk_op 4 8 ''d'', mk_op 2 7 ''u'']"
  have r7: "row_run (7, 1) ?ops = mk_op 1 7 ''i'' # [mk_op 2 7 ''u'', mk_op 3 7 ''u'']"
    by (simp add: row_run_def row_key_def mk_op_def)
  have r8: "row_run (8, 1) ?ops = [mk_op 4 8 ''d'']"
    by (simp add: row_run_def row_key_def mk_op_def)
  have c: "command (mk_op 1 7 ''i'') = ''i''"
    "list_all (\<lambda>op. command op = ''u'') [mk_op 2 7 ''u'', mk_op 3 7 ''u'']"
    by (simp_all add: mk_op_def)
  from compressed_operations_per_row[of ?ops] r7 r8 c show ?thesis by blast
qed

text \<open>
  C10. \<^verbatim>\<open>compressed_operations\<close> validates nothing and always returns a list. A
  per-row run of two or more operations whose oldest element is a Delete leaves nothing in
  the returned list, and so does every run of two or more operations that is neither an
  Insert followed only by Updates, nor all Updates, nor an Update first and a Delete last.
\<close>

theorem compressed_operations_omits_unhandled:
  "\<exists>out. compressed_operations ops = Inr out \<and>
     (\<forall>k d rest. row_run k ops = d # rest \<and> rest \<noteq> [] \<and> command d = ''d'' \<longrightarrow>
         filter (\<lambda>op. row_key op = k) out = []) \<and>
     (\<forall>k op0 rest. row_run k ops = op0 # rest \<and> rest \<noteq> [] \<and>
         \<not> (command op0 = ''i'' \<and> list_all (\<lambda>op. command op = ''u'') rest) \<and>
         \<not> (command op0 = ''u'' \<and> list_all (\<lambda>op. command op = ''u'') rest) \<and>
         \<not> (command op0 = ''u'' \<and> command (last rest) = ''d'') \<longrightarrow>
         filter (\<lambda>op. row_key op = k) out = [])"
proof -
  obtain out where out: "compressed_operations ops = Inr out"
    by (simp add: compressed_operations_eq)
  have run: "\<And>k. filter (\<lambda>op. row_key op = k) out = seq_kept (row_run k ops)"
    unfolding row_run_def by (rule compressed_operations_run[OF out])
  have "\<forall>k d rest. row_run k ops = d # rest \<and> rest \<noteq> [] \<and> command d = ''d'' \<longrightarrow>
         filter (\<lambda>op. row_key op = k) out = []"
    by (simp add: run seq_kept_Cons)
  moreover have "\<forall>k op0 rest. row_run k ops = op0 # rest \<and> rest \<noteq> [] \<and>
         \<not> (command op0 = ''i'' \<and> list_all (\<lambda>op. command op = ''u'') rest) \<and>
         \<not> (command op0 = ''u'' \<and> list_all (\<lambda>op. command op = ''u'') rest) \<and>
         \<not> (command op0 = ''u'' \<and> command (last rest) = ''d'') \<longrightarrow>
         filter (\<lambda>op. row_key op = k) out = []"
    by (auto simp add: run seq_kept_Cons)
  ultimately show ?thesis using out by blast
qed

theorem compressed_operations_omits_unhandled_witness:
  "\<exists>out. compressed_operations
            [mk_op 1 7 ''d'', mk_op 2 7 ''u'', mk_op 3 8 ''i'', mk_op 4 9 ''u'',
             mk_op 5 9 ''i''] = Inr out \<and>
     filter (\<lambda>op. row_key op = (7, 1)) out = [] \<and>
     filter (\<lambda>op. row_key op = (9, 1)) out = []"
proof -
  let ?ops = "[mk_op 1 7 ''d'', mk_op 2 7 ''u'', mk_op 3 8 ''i'', mk_op 4 9 ''u'',
               mk_op 5 9 ''i'']"
  have r7: "row_run (7, 1) ?ops = mk_op 1 7 ''d'' # [mk_op 2 7 ''u'']"
    by (simp add: row_run_def row_key_def mk_op_def)
  have c7: "[mk_op 2 7 ''u''] \<noteq> []" "command (mk_op 1 7 ''d'') = ''d''"
    by (simp_all add: mk_op_def)
  have r9: "row_run (9, 1) ?ops = mk_op 4 9 ''u'' # [mk_op 5 9 ''i'']"
    by (simp add: row_run_def row_key_def mk_op_def)
  have c9: "[mk_op 5 9 ''i''] \<noteq> []"
    "\<not> (command (mk_op 4 9 ''u'') = ''i'' \<and> list_all (\<lambda>op. command op = ''u'') [mk_op 5 9 ''i''])"
    "\<not> (command (mk_op 4 9 ''u'') = ''u'' \<and> list_all (\<lambda>op. command op = ''u'') [mk_op 5 9 ''i''])"
    "\<not> (command (mk_op 4 9 ''u'') = ''u'' \<and> command (last [mk_op 5 9 ''i'']) = ''d'')"
    by (simp_all add: mk_op_def)
  from compressed_operations_omits_unhandled[of ?ops] r7 c7 r9 c9 show ?thesis by blast
qed

text \<open>
  C3. When \<^verbatim>\<open>compress\<close> returns, every sequence has passed validation. Of the
  unversioned operations of a row (newest first, \<open>seq\<close>) the committed table keeps
  (\<open>seq'\<close>): only the Insert, when the oldest is an Insert and all newer ones are
  Updates; nothing, when the oldest is an Insert and the newest a Delete; only the newest
  Update, when all are Updates; only the Delete, when the oldest is an Update and the
  newest a Delete; the whole sequence, when it has one element or none of these shapes.
  The table's primary key \<open>order\<close> is unique.
\<close>

theorem compress_per_row:
  assumes "distinct (map order table)" and "compress table = Inr table'"
    and "seq = stored_run k table" and "seq' = stored_run k table'"
  shows "(1 < length seq \<and> command (last seq) = ''i'' \<and>
            list_all (\<lambda>op. command op = ''u'') (butlast seq) \<longrightarrow> seq' = [last seq]) \<and>
         (1 < length seq \<and> command (last seq) = ''i'' \<and> command (hd seq) = ''d'' \<longrightarrow>
            seq' = []) \<and>
         (1 < length seq \<and> list_all (\<lambda>op. command op = ''u'') seq \<longrightarrow> seq' = [hd seq]) \<and>
         (1 < length seq \<and> command (last seq) = ''u'' \<and> command (hd seq) = ''d'' \<longrightarrow>
            seq' = [hd seq]) \<and>
         (length seq = 1 \<longrightarrow> seq' = seq) \<and>
         (1 < length seq \<and>
            \<not> (command (last seq) = ''i'' \<and> list_all (\<lambda>op. command op = ''u'') (butlast seq)) \<and>
            \<not> (command (last seq) = ''i'' \<and> command (hd seq) = ''d'') \<and>
            \<not> list_all (\<lambda>op. command op = ''u'') seq \<and>
            \<not> (command (last seq) = ''u'' \<and> command (hd seq) = ''d'') \<longrightarrow> seq' = seq)"
proof -
  have d: "distinct seq"
    using stored_run_distinct[OF assms(1), of k] assms(3) by (simp add: distinct_map)
  have rem: "seq' = filter (\<lambda>r. r \<notin> set (deleted_of seq)) seq"
    unfolding assms(3,4) compress_stored_run[OF assms(1,2)] seq_remaining_def ..
  have all_butlast: "list_all (\<lambda>op. command op = ''u'') (butlast seq)"
    if "list_all (\<lambda>op. command op = ''u'') seq"
    using that by (auto simp: list_all_iff dest: in_set_butlastD)
  have hd_butlast: "hd seq \<in> set (butlast seq)" if "1 < length seq"
    using that by (cases seq) auto
  have last_in: "last seq \<in> set seq" if "1 < length seq"
    using that by (cases seq) auto
  have rb: "filter (\<lambda>r. r \<notin> set (butlast seq)) seq = [last seq]" if "1 < length seq"
    using that by (intro remaining_butlast[OF d]) auto
  have rt: "filter (\<lambda>r. r \<notin> set (tl seq)) seq = [hd seq]" if "1 < length seq"
    using that by (intro remaining_tl[OF d]) auto
  have s1: "1 < length seq \<and> command (last seq) = ''i'' \<and>
            list_all (\<lambda>op. command op = ''u'') (butlast seq) \<longrightarrow> seq' = [last seq]"
    using rb
    by (auto simp: rem deleted_of_def seq_deletions_def andmap_def)
  have s2: "1 < length seq \<and> command (last seq) = ''i'' \<and> command (hd seq) = ''d'' \<longrightarrow>
            seq' = []"
    using hd_butlast
    by (auto simp: rem deleted_of_def seq_deletions_def andmap_def list_all_iff filter_notin_self)
  have s3: "1 < length seq \<and> list_all (\<lambda>op. command op = ''u'') seq \<longrightarrow> seq' = [hd seq]"
    using rt all_butlast last_in
    by (auto simp: rem deleted_of_def seq_deletions_def andmap_def list_all_iff)
  have s4: "1 < length seq \<and> command (last seq) = ''u'' \<and> command (hd seq) = ''d'' \<longrightarrow>
            seq' = [hd seq]"
    using rt
    by (auto simp: rem deleted_of_def seq_deletions_def andmap_def)
  have s5: "length seq = 1 \<longrightarrow> seq' = seq"
    by (simp add: rem deleted_of_def)
  have s6: "1 < length seq \<and>
            \<not> (command (last seq) = ''i'' \<and> list_all (\<lambda>op. command op = ''u'') (butlast seq)) \<and>
            \<not> (command (last seq) = ''i'' \<and> command (hd seq) = ''d'') \<and>
            \<not> list_all (\<lambda>op. command op = ''u'') seq \<and>
            \<not> (command (last seq) = ''u'' \<and> command (hd seq) = ''d'') \<longrightarrow> seq' = seq"
  proof (intro impI, elim conjE)
    assume len: "1 < length seq"
      and n1: "\<not> (command (last seq) = ''i'' \<and> list_all (\<lambda>op. command op = ''u'') (butlast seq))"
      and n2: "\<not> (command (last seq) = ''i'' \<and> command (hd seq) = ''d'')"
      and n3: "\<not> list_all (\<lambda>op. command op = ''u'') seq"
      and n4: "\<not> (command (last seq) = ''u'' \<and> command (hd seq) = ''d'')"
    from len have ne: "seq \<noteq> []" by auto
    have n3': "\<not> (command (last seq) = ''u'' \<and> list_all (\<lambda>op. command op = ''u'') (butlast seq))"
    proof
      assume a: "command (last seq) = ''u'' \<and> list_all (\<lambda>op. command op = ''u'') (butlast seq)"
      have "seq = butlast seq @ [last seq]" using ne by simp
      then have "list_all (\<lambda>op. command op = ''u'') seq = 
                 list_all (\<lambda>op. command op = ''u'') (butlast seq @ [last seq])" by simp
      with a have "list_all (\<lambda>op. command op = ''u'') seq" by simp
      with n3 show False ..
    qed
    from n1 n2 n3' n4 have "seq_deletions seq = []"
      by (auto simp: seq_deletions_def andmap_def)
    with len show "seq' = seq" by (simp add: rem deleted_of_def)
  qed
  from s1 s2 s3 s4 s5 s6 show ?thesis by blast
qed

theorem compress_per_row_witness:
  "distinct (map order ex_table) \<and> compress ex_table = Inr ex_table' \<and>
   stored_run (7, 1) ex_table' = [mk_op 1 7 ''i''] \<and>
   stored_run (8, 1) ex_table' = [] \<and>
   stored_run (9, 1) ex_table' = [mk_op 7 9 ''u''] \<and>
   stored_run (10, 1) ex_table' = [mk_op 9 10 ''d'']"
proof -
  have r7: "[mk_op 3 7 ''u'', mk_op 2 7 ''u'', mk_op 1 7 ''i''] = stored_run (7, 1) ex_table"
    by (simp add: stored_run_def ex_table_unversioned) (simp add: mk_op_def row_key_def)
  have r8: "[mk_op 5 8 ''d'', mk_op 4 8 ''i''] = stored_run (8, 1) ex_table"
    by (simp add: stored_run_def ex_table_unversioned) (simp add: mk_op_def row_key_def)
  have r9: "[mk_op 7 9 ''u'', mk_op 6 9 ''u''] = stored_run (9, 1) ex_table"
    by (simp add: stored_run_def ex_table_unversioned) (simp add: mk_op_def row_key_def)
  have r10: "[mk_op 9 10 ''d'', mk_op 8 10 ''u''] = stored_run (10, 1) ex_table"
    by (simp add: stored_run_def ex_table_unversioned) (simp add: mk_op_def row_key_def)
  have "stored_run (7, 1) ex_table' = [mk_op 1 7 ''i'']"
    using compress_per_row[OF ex_table_distinct ex_table_compress r7 refl]
    by (simp add: mk_op_def)
  moreover have "stored_run (8, 1) ex_table' = []"
    using compress_per_row[OF ex_table_distinct ex_table_compress r8 refl]
    by (simp add: mk_op_def)
  moreover have "stored_run (9, 1) ex_table' = [mk_op 7 9 ''u'']"
    using compress_per_row[OF ex_table_distinct ex_table_compress r9 refl]
    by (simp add: mk_op_def)
  moreover have "stored_run (10, 1) ex_table' = [mk_op 9 10 ''d'']"
    using compress_per_row[OF ex_table_distinct ex_table_compress r10 refl]
    by (simp add: mk_op_def)
  ultimately show ?thesis using ex_table_distinct ex_table_compress by blast
qed

text \<open>
  C5, as the code has it. Both compactions are idempotent on operations with distinct
  \<open>order\<close>, the primary key. For a list of such operations, and whatever the order in
  which a dictionary enumerates its values, \<^verbatim>\<open>compressed_operations\<close> returns a list on
  which it returns the same list again. When \<^verbatim>\<open>compress\<close> has committed a table,
  running it on that table succeeds and leaves the table as it is.
\<close>

theorem compaction_idempotent:
  "(enumerates_values enum \<and> distinct (map order ops) \<longrightarrow>
      (\<exists>out. compressed_operations_by enum ops = Inr out \<and>
             compressed_operations_by enum out = Inr out)) \<and>
   (distinct (map order table) \<and> compress table = Inr table' \<longrightarrow>
      compress table' = Inr table')"
  using compressed_operations_by_idempotent compress_idempotent by blast

theorem compaction_idempotent_witness:
  "(\<exists>out. compressed_operations_by py27_itervalues ex_table = Inr out \<and>
          compressed_operations_by py27_itervalues out = Inr out) \<and>
   distinct (map order ex_table) \<and> compress ex_table = Inr ex_table' \<and>
   compress ex_table' = Inr ex_table'"
  using compaction_idempotent[of py27_itervalues ex_table ex_table ex_table']
    enumerates_values_py27 ex_table_distinct ex_table_compress
  by blast

text \<open>
  C5, as stated for every list, fails where operations of different rows have the same
  \<open>order\<close>: the final sort is stable and keeps them in the order in which the dictionary
  enumerates their rows. Here two Updates with \<open>order\<close> 5, of the rows 2 and 10, whose
  keys meet in one slot of the hash table, come back swapped, and swapped again from the
  second run.
\<close>

theorem compressed_operations_tied_orders:
  "compressed_operations_by py27_itervalues [mk_op 5 2 ''u'', mk_op 5 10 ''u''] =
     Inr [mk_op 5 10 ''u'', mk_op 5 2 ''u''] \<and>
   compressed_operations_by py27_itervalues [mk_op 5 10 ''u'', mk_op 5 2 ''u''] =
     Inr [mk_op 5 2 ''u'', mk_op 5 10 ''u''] \<and>
   [mk_op 5 2 ''u'', mk_op 5 10 ''u''] \<noteq> [mk_op 5 10 ''u'', mk_op 5 2 ''u'']"
proof -
  have g1: "group_by row_key (sort_key order [mk_op 5 2 ''u'', mk_op 5 10 ''u'']) =
              [((2, 1), [mk_op 5 2 ''u'']), ((10, 1), [mk_op 5 10 ''u''])]"
    by (simp add: mk_op_def row_key_def)
  have g2: "group_by row_key (sort_key order [mk_op 5 10 ''u'', mk_op 5 2 ''u'']) =
              [((10, 1), [mk_op 5 10 ''u'']), ((2, 1), [mk_op 5 2 ''u''])]"
    by (simp add: mk_op_def row_key_def)
  have s1: "py27_slot [(2, 1), (10, 1)] (2, 1) = 6" "py27_slot [(2, 1), (10, 1)] (10, 1) = 5"
    by code_simp+
  have s2: "py27_slot [(10, 1), (2, 1)] (10, 1) = 6" "py27_slot [(10, 1), (2, 1)] (2, 1) = 5"
    by code_simp+
  have e1: "py27_itervalues [((2, 1), [mk_op 5 2 ''u'']), ((10, 1), [mk_op 5 10 ''u''])] =
              [[mk_op 5 10 ''u''], [mk_op 5 2 ''u'']]"
    by (simp add: py27_itervalues_def s1)
  have e2: "py27_itervalues [((10, 1), [mk_op 5 10 ''u'']), ((2, 1), [mk_op 5 2 ''u''])] =
              [[mk_op 5 2 ''u''], [mk_op 5 10 ''u'']]"
    by (simp add: py27_itervalues_def s2)
  have "compressed_operations_by py27_itervalues [mk_op 5 2 ''u'', mk_op 5 10 ''u''] =
     Inr [mk_op 5 10 ''u'', mk_op 5 2 ''u'']"
    unfolding compressed_operations_by_def g1 Let_def e1
    by (simp add: compressed_seq_def andmap_def mk_op_def)
  moreover have "compressed_operations_by py27_itervalues [mk_op 5 10 ''u'', mk_op 5 2 ''u''] =
     Inr [mk_op 5 2 ''u'', mk_op 5 10 ''u'']"
    unfolding compressed_operations_by_def g2 Let_def e2
    by (simp add: compressed_seq_def andmap_def mk_op_def)
  moreover have "[mk_op 5 2 ''u'', mk_op 5 10 ''u''] \<noteq> [mk_op 5 10 ''u'', mk_op 5 2 ''u'']"
    by (simp add: mk_op_def)
  ultimately show ?thesis by blast
qed

text \<open>
  C6. Compaction preserves the net effect on a row. For every row whose operations form a
  legal sequence, replaying what \<^verbatim>\<open>compressed_operations\<close> returns for the row, or
  what \<^verbatim>\<open>compress\<close> leaves of the row in the table, ends in the same row state
  (absent, present with the live content, or a conflict) as replaying the original
  sequence from oldest to newest. The replay starts from a fresh, absent row; for a
  sequence that does not start with an Insert it may also start from a present row.
\<close>

theorem compaction_preserves_net_effect:
  "(legal_sequence (row_run k ops) \<and> (s = Absent \<or> command (hd (row_run k ops)) \<noteq> ''i'') \<longrightarrow>
      (\<exists>out. compressed_operations ops = Inr out \<and>
         replay live (filter (\<lambda>op. row_key op = k) out) s = replay live (row_run k ops) s)) \<and>
   (distinct (map order table) \<and> compress table = Inr table' \<and>
    legal_sequence (rev (stored_run k table)) \<and>
    (s = Absent \<or> command (last (stored_run k table)) \<noteq> ''i'') \<longrightarrow>
      replay live (rev (stored_run k table')) s = replay live (rev (stored_run k table)) s)"
proof (intro conjI impI)
  assume a: "legal_sequence (row_run k ops) \<and>
             (s = Absent \<or> command (hd (row_run k ops)) \<noteq> ''i'')"
  obtain out where out: "compressed_operations ops = Inr out"
    by (simp add: compressed_operations_eq)
  have "filter (\<lambda>op. row_key op = k) out = seq_kept (row_run k ops)"
    unfolding row_run_def by (rule compressed_operations_run[OF out])
  with a replay_seq_kept[of "row_run k ops" s live] out
  show "\<exists>out. compressed_operations ops = Inr out \<and>
         replay live (filter (\<lambda>op. row_key op = k) out) s = replay live (row_run k ops) s"
    by auto
next
  assume a: "distinct (map order table) \<and> compress table = Inr table' \<and>
    legal_sequence (rev (stored_run k table)) \<and>
    (s = Absent \<or> command (last (stored_run k table)) \<noteq> ''i'')"
  then have dist: "distinct (map order table)" and c: "compress table = Inr table'" by simp_all
  have d: "distinct (stored_run k table)"
    using stored_run_distinct[OF dist, of k] by (simp add: distinct_map)
  have "stored_run k table' = seq_remaining (stored_run k table)"
    by (rule compress_stored_run[OF dist c])
  with a replay_seq_remaining[OF d, of s live]
  show "replay live (rev (stored_run k table')) s = replay live (rev (stored_run k table)) s"
    by auto
qed

theorem compaction_preserves_net_effect_witness:
  "(\<exists>out. compressed_operations ex_table = Inr out \<and>
      replay ''v'' (filter (\<lambda>op. row_key op = (8, 1)) out) Absent = Some Absent) \<and>
   replay ''v'' (rev (stored_run (9, 1) ex_table')) (Present ''w'') = Some (Present ''v'')"
proof -
  have r8: "row_run (8, 1) ex_table = [mk_op 4 8 ''i'', mk_op 5 8 ''d'']"
    by (simp add: row_run_def ex_table_def mk_op_def row_key_def)
  have l8: "legal_sequence (row_run (8, 1) ex_table)"
    unfolding r8 by (simp add: legal_sequence_def mk_op_def)
  have v8: "replay ''v'' (row_run (8, 1) ex_table) Absent = Some Absent"
    unfolding r8 by (simp add: perform_row_def mk_op_def)
  have r9: "stored_run (9, 1) ex_table = [mk_op 7 9 ''u'', mk_op 6 9 ''u'']"
    by (simp add: stored_run_def ex_table_unversioned) (simp add: mk_op_def row_key_def)
  have l9: "legal_sequence (rev (stored_run (9, 1) ex_table))"
    unfolding r9 by (simp add: legal_sequence_def mk_op_def)
  have h9: "command (last (stored_run (9, 1) ex_table)) \<noteq> ''i''"
    unfolding r9 by (simp add: mk_op_def)
  have v9: "replay ''v'' (rev (stored_run (9, 1) ex_table)) (Present ''w'') = Some (Present ''v'')"
    unfolding r9 by (simp add: perform_row_def mk_op_def)
  from compaction_preserves_net_effect[of "(8, 1)" ex_table Absent "''v''" ex_table ex_table]
    l8 v8
  have p: "\<exists>out. compressed_operations ex_table = Inr out \<and>
      replay ''v'' (filter (\<lambda>op. row_key op = (8, 1)) out) Absent = Some Absent"
    by auto
  from compaction_preserves_net_effect[of "(9, 1)" ex_table "Present ''w''" "''v''" ex_table ex_table']
    ex_table_distinct ex_table_compress l9 h9 v9
  have "replay ''v'' (rev (stored_run (9, 1) ex_table')) (Present ''w'') = Some (Present ''v'')"
    by auto
  with p show ?thesis by blast
qed

text \<open>
  C1, as the code has it. A push is rejected with \<open>PushRejected\<close>, and the server is
  left as it was, whenever one of these holds, checked in this order: the constructor of
  the message raises \<open>KeyError\<close>; the message's \<open>latest_version_id\<close> is an integer
  other than the ledger's latest version id; the message has no operations; the signature
  does not verify. Whenever \<open>PushRejected\<close> is raised, the database is the one before
  the call, and one of these four holds or the loop that performs the operations has
  raised \<open>OperationError\<close>.
\<close>

theorem handle_push_admission:
  "(parse data = Inl KeyError \<longrightarrow>
      handle_push parse islegit perform now data s =
        (Inl (PushRejected [Text ''request object isn't a valid PushMessage'', Data data]), s)) \<and>
   (\<forall>message given.
      parse data = Inr message \<and> latest_version_id message = Some given \<and>
      get_latest_version_id (db s) \<noteq> Some given \<longrightarrow>
      handle_push parse islegit perform now data s =
        (Inl (PushRejected
           [Formatted ''version identifier isn't the latest one; given: %d'' given]), s)) \<and>
   (\<forall>message.
      parse data = Inr message \<and>
      get_latest_version_id (db s) = latest_version_id message \<and>
      operations message = [] \<longrightarrow>
      handle_push parse islegit perform now data s =
        (Inl (PushRejected [Text ''message doesn't contain operations'']), s)) \<and>
   (\<forall>message.
      parse data = Inr message \<and>
      get_latest_version_id (db s) = latest_version_id message \<and>
      operations message \<noteq> [] \<and> \<not> islegit message (db s) \<longrightarrow>
      handle_push parse islegit perform now data s =
        (Inl (PushRejected [Text ''message isn't properly signed'']), s)) \<and>
   (\<forall>args s'.
      handle_push parse islegit perform now data s = (Inl (PushRejected args), s') \<longrightarrow>
      db s' = db s \<and>
      (parse data = Inl KeyError \<or>
       (\<exists>message. parse data = Inr message \<and>
          (get_latest_version_id (db s) \<noteq> latest_version_id message \<or>
           operations message = [] \<or>
           \<not> islegit message (db s) \<or>
           (\<exists>d'. perform_all perform message (operations message) (db s) =
                    (Some (OperationError (tl args)), d'))))))"
proof (intro conjI allI impI)
  assume "parse data = Inl KeyError"
  then show "handle_push parse islegit perform now data s =
        (Inl (PushRejected [Text ''request object isn't a valid PushMessage'', Data data]), s)"
    by (simp add: handle_push_def with_transaction_def handle_push_body_def)
next
  fix message given
  assume "parse data = Inr message \<and> latest_version_id message = Some given \<and>
      get_latest_version_id (db s) \<noteq> Some given"
  then show "handle_push parse islegit perform now data s =
        (Inl (PushRejected
           [Formatted ''version identifier isn't the latest one; given: %d'' given]), s)"
    by (simp add: handle_push_def with_transaction_def handle_push_body_def)
next
  fix message
  assume "parse data = Inr message \<and>
      get_latest_version_id (db s) = latest_version_id message \<and>
      operations message = []"
  then show "handle_push parse islegit perform now data s =
        (Inl (PushRejected [Text ''message doesn't contain operations'']), s)"
    by (simp add: handle_push_def with_transaction_def handle_push_body_def)
next
  fix message
  assume "parse data = Inr message \<and>
      get_latest_version_id (db s) = latest_version_id message \<and>
      operations message \<noteq> [] \<and> \<not> islegit message (db s)"
  then show "handle_push parse islegit perform now data s =
        (Inl (PushRejected [Text ''message isn't properly signed'']), s)"
    by (simp add: handle_push_def with_transaction_def handle_push_body_def)
next
  fix args s'
  assume a: "handle_push parse islegit perform now data s = (Inl (PushRejected args), s')"
  then show "db s' = db s" by (rule handle_push_rejected_unchanged)
next
  fix args s'
  assume a: "handle_push parse islegit perform now data s = (Inl (PushRejected args), s')"
  show "parse data = Inl KeyError \<or>
       (\<exists>message. parse data = Inr message \<and>
          (get_latest_version_id (db s) \<noteq> latest_version_id message \<or>
           operations message = [] \<or>
           \<not> islegit message (db s) \<or>
           (\<exists>d'. perform_all perform message (operations message) (db s) =
                    (Some (OperationError (tl args)), d'))))"
  proof (cases "parse data")
    case (Inl e)
    with a show ?thesis
      by (cases e) (simp_all add: handle_push_def with_transaction_def handle_push_body_def)
  next
    case (Inr message)
    show ?thesis
    proof (cases "get_latest_version_id (db s) \<noteq> latest_version_id message \<or>
           operations message = [] \<or> \<not> islegit message (db s)")
      case True
      with Inr show ?thesis by blast
    next
      case False
      obtain r d' where p: "perform_all perform message (operations message) (db s) = (r, d')"
        by (cases "perform_all perform message (operations message) (db s)")
      from a Inr False p have "r = Some (OperationError (tl args))"
        by (auto simp: handle_push_def with_transaction_def handle_push_body_def Let_def
            split: option.splits exc.splits)
      with p Inr show ?thesis by blast
    qed
  qed
qed

theorem handle_push_admission_witness:
  "handle_push ex_parse_stale ex_islegit ex_perform 30 Map.empty ex_server =
     (Inl (PushRejected [Formatted ''version identifier isn't the latest one; given: %d'' 2]),
      ex_server)"
proof -
  have a: "ex_parse_stale Map.empty = Inr (ex_message\<lparr>latest_version_id := Some 2\<rparr>)"
    by (simp add: ex_parse_stale_def)
  have b: "latest_version_id (ex_message\<lparr>latest_version_id := Some 2\<rparr>) = Some 2" by simp
  have c: "get_latest_version_id (db ex_server) \<noteq> Some 2" by (simp add: ex_latest)
  from handle_push_admission[of ex_parse_stale Map.empty ex_islegit ex_perform 30 ex_server] a b c
  show ?thesis by blast
qed

text \<open>
  C1, as stated, fails: here a push passes all four checks (it parses, its
  \<open>latest_version_id\<close> is the ledger's, it has operations, its signature verifies) and
  is rejected with \<open>PushRejected\<close>, because one of its operations cannot be performed;
  the database is left as it was.
\<close>

theorem handle_push_admitted_rejected:
  "ex_parse Map.empty = Inr ex_message \<and>
   get_latest_version_id (db ex_server_empty) = latest_version_id ex_message \<and>
   operations ex_message \<noteq> [] \<and>
   ex_islegit ex_message (db ex_server_empty) \<and>
   fst (handle_push ex_parse ex_islegit ex_perform 30 Map.empty ex_server_empty) =
     Inl (PushRejected [Text ''at least one operation couldn't be performed'',
                        Text ''row missing'', Op (mk_op 13 9 ''u'')]) \<and>
   db (snd (handle_push ex_parse ex_islegit ex_perform 30 Map.empty ex_server_empty)) =
     db ex_server_empty"
proof -
  have "fst (handle_push ex_parse ex_islegit ex_perform 30 Map.empty ex_server_empty) =
     Inl (PushRejected [Text ''at least one operation couldn't be performed'',
                        Text ''row missing'', Op (mk_op 13 9 ''u'')]) \<and>
   db (snd (handle_push ex_parse ex_islegit ex_perform 30 Map.empty ex_server_empty)) =
     db ex_server_empty"
    unfolding handle_push_def with_transaction_def handle_push_body_def
    by (simp add: ex_parse_def ex_latest_empty)
       (simp add: ex_message_def ex_islegit_def ex_server_empty_def ex_perform_def mk_op_def
          row_key_def)
  then show ?thesis
    by (simp add: ex_parse_def ex_latest_empty ex_islegit_def) (simp add: ex_message_def)
qed

text \<open>
  C7, as the code has it. \<^verbatim>\<open>handle_pull\<close> never raises a rejection. When the request
  has no \<open>latest_version_id\<close>, or \<^verbatim>\<open>int\<close> raises \<open>ValueError\<close> or
  \<open>TypeError\<close> on it, the message holds all versions. When it converts to an integer
  \<open>n\<close> that the database accepts as a parameter, the message holds exactly the versions
  with an id greater than \<open>n\<close>, in the storage order of the versions table: ascending
  when the table is stored in ascending order of ids, and none when \<open>n\<close> is the latest
  version id. The payload holds the row data of the operations of these versions, unless
  the request has the key \<open>fast_forward\<close>: then it is empty.
\<close>

theorem handle_pull_returns:
  fixes int_of_str bindable fetch data extra_data d
  defines "given \<equiv> (case data ''latest_version_id'' of None \<Rightarrow> NoneV | Some v \<Rightarrow> v)"
  shows
    "(\<forall>args. handle_pull int_of_str bindable fetch data extra_data d \<noteq> Inl (PullRejected args) \<and>
            handle_pull int_of_str bindable fetch data extra_data d \<noteq> Inl (PushRejected args)) \<and>
     (data ''latest_version_id'' = None \<or> py_int int_of_str given = Inl ValueError \<or>
      py_int int_of_str given = Inl TypeError \<longrightarrow>
        (\<exists>m. handle_pull int_of_str bindable fetch data extra_data d = Inr m \<and>
           pm_versions m = versions d \<and>
           (data ''fast_forward'' = None \<longrightarrow>
              pm_payload m =
                concat (map (\<lambda>v. List.map_filter (fetch (tracked d))
                                    (filter (\<lambda>op. version_id op = Some (v_version_id v))
                                       (sync_operations d))) (pm_versions m))) \<and>
           (data ''fast_forward'' \<noteq> None \<longrightarrow> pm_payload m = []))) \<and>
     (\<forall>n. py_int int_of_str given = Inr n \<and> bindable n \<longrightarrow>
        (\<exists>m. handle_pull int_of_str bindable fetch data extra_data d = Inr m \<and>
           pm_versions m = filter (\<lambda>v. n < v_version_id v) (versions d) \<and>
           (sorted (map v_version_id (versions d)) \<longrightarrow>
              sorted (map v_version_id (pm_versions m))) \<and>
           (get_latest_version_id d = Some n \<longrightarrow> pm_versions m = []) \<and>
           (data ''fast_forward'' = None \<longrightarrow>
              pm_payload m =
                concat (map (\<lambda>v. List.map_filter (fetch (tracked d))
                                    (filter (\<lambda>op. version_id op = Some (v_version_id v))
                                       (sync_operations d))) (pm_versions m))) \<and>
           (data ''fast_forward'' \<noteq> None \<longrightarrow> pm_payload m = [])))"
proof (intro conjI allI impI)
  fix args
  show "handle_pull int_of_str bindable fetch data extra_data d \<noteq> Inl (PullRejected args)"
    and "handle_pull int_of_str bindable fetch data extra_data d \<noteq> Inl (PushRejected args)"
    using handle_pull_never_rejects by blast+
next
  assume a: "data ''latest_version_id'' = None \<or> py_int int_of_str given = Inl ValueError \<or>
      py_int int_of_str given = Inl TypeError"
  have "data ''latest_version_id'' = None \<Longrightarrow> py_int int_of_str given = Inl TypeError"
    by (simp add: given_def py_int_absent)
  with a obtain e where e: "py_int int_of_str given = Inl e" "e = ValueError \<or> e = TypeError"
    by blast
  from handle_pull_all[where int_of_str = int_of_str and data = data and e = e
      and bindable = bindable and fetch = fetch and extra_data = extra_data and d = d,
      OF e[unfolded given_def]]
  show "\<exists>m. handle_pull int_of_str bindable fetch data extra_data d = Inr m \<and>
           pm_versions m = versions d \<and>
           (data ''fast_forward'' = None \<longrightarrow>
              pm_payload m =
                concat (map (\<lambda>v. List.map_filter (fetch (tracked d))
                                    (filter (\<lambda>op. version_id op = Some (v_version_id v))
                                       (sync_operations d))) (pm_versions m))) \<and>
           (data ''fast_forward'' \<noteq> None \<longrightarrow> pm_payload m = [])"
    by auto
next
  fix n
  assume a: "py_int int_of_str given = Inr n \<and> bindable n"
  then have g: "py_int int_of_str
             (case data ''latest_version_id'' of None \<Rightarrow> NoneV | Some v \<Rightarrow> v) = Inr n"
    and b: "bindable n" by (simp_all add: given_def)
  from handle_pull_above[where int_of_str = int_of_str and data = data and n = n
      and bindable = bindable and fetch = fetch and extra_data = extra_data and d = d,
      OF g b]
  show "\<exists>m. handle_pull int_of_str bindable fetch data extra_data d = Inr m \<and>
           pm_versions m = filter (\<lambda>v. n < v_version_id v) (versions d) \<and>
           (sorted (map v_version_id (versions d)) \<longrightarrow>
              sorted (map v_version_id (pm_versions m))) \<and>
           (get_latest_version_id d = Some n \<longrightarrow> pm_versions m = []) \<and>
           (data ''fast_forward'' = None \<longrightarrow>
              pm_payload m =
                concat (map (\<lambda>v. List.map_filter (fetch (tracked d))
                                    (filter (\<lambda>op. version_id op = Some (v_version_id v))
                                       (sync_operations d))) (pm_versions m))) \<and>
           (data ''fast_forward'' \<noteq> None \<longrightarrow> pm_payload m = [])"
    by (auto simp: filter_above_latest sorted_filter)
qed

theorem handle_pull_returns_witness:
  "\<exists>m. handle_pull ex_int_of_str ex_bindable ex_fetch ex_request
          (None :: (string \<times> unit) list option) (db ex_server) = Inr m \<and>
     pm_versions m = [\<lparr>v_version_id = 4, v_created = 20, v_node_id = 3\<rparr>] \<and>
     sorted (map v_version_id (pm_versions m)) \<and>
     pm_payload m = [(9, 1)]"
proof -
  have g: "py_int ex_int_of_str
             (case ex_request ''latest_version_id'' of None \<Rightarrow> NoneV | Some v \<Rightarrow> v) = Inr 3"
    by (simp add: ex_request_def py_int_def ex_int_of_str_def)
  have b: "ex_bindable 3" by (simp add: ex_bindable_def)
  have ff: "ex_request ''fast_forward'' = None" by (simp add: ex_request_def)
  have srt: "sorted (map v_version_id (versions (db ex_server)))"
    by (simp add: ex_server_def ex_versions_def)
  from handle_pull_returns[of ex_int_of_str ex_bindable ex_fetch ex_request
      "None :: (string \<times> unit) list option" "db ex_server"] g b ff srt
  obtain m where r: "handle_pull ex_int_of_str ex_bindable ex_fetch ex_request
        (None :: (string \<times> unit) list option) (db ex_server) = Inr m"
    and v: "pm_versions m = filter (\<lambda>v. 3 < v_version_id v) (versions (db ex_server))"
    and s: "sorted (map v_version_id (pm_versions m))"
    and p: "pm_payload m =
          concat (map (\<lambda>v. List.map_filter (ex_fetch (tracked (db ex_server)))
                              (filter (\<lambda>op. version_id op = Some (v_version_id v))
                                 (sync_operations (db ex_server)))) (pm_versions m))"
    by auto
  have v': "pm_versions m = [\<lparr>v_version_id = 4, v_created = 20, v_node_id = 3\<rparr>]"
    unfolding v by (simp add: ex_server_def ex_versions_def)
  have "pm_payload m = [(9, 1)]"
    unfolding p v'
    by (simp add: ex_server_def ex_stored_def mk_op_def ex_fetch_def row_key_def
        List.map_filter_def)
  with r v' s show ?thesis by blast
qed

text \<open>
  C7, as stated, fails: the versions come in the storage order of the table, which the
  query does not sort. Here the table holds the versions 5, 3 and 4 in this order, and a
  pull after version 3 returns the versions 5 and 4, which is not ascending.
\<close>

theorem handle_pull_storage_order:
  "handle_pull ex_int_of_str ex_bindable ex_fetch ex_request
     (None :: (string \<times> unit) list option) ex_unsorted =
     Inr \<lparr>pm_versions =
            [\<lparr>v_version_id = 5, v_created = 30, v_node_id = 3\<rparr>,
             \<lparr>v_version_id = 4, v_created = 20, v_node_id = 3\<rparr>],
          pm_operations = [], pm_payload = [], pm_extra = []\<rparr> \<and>
   \<not> sorted (map v_version_id
          [\<lparr>v_version_id = 5, v_created = 30, v_node_id = 3\<rparr>,
           \<lparr>v_version_id = 4, v_created = 20, v_node_id = 3\<rparr>])"
  by (simp add: handle_pull_def ex_request_def py_int_def ex_int_of_str_def ex_bindable_def
      ex_unsorted_def add_version_def List.map_filter_def)

text \<open>
  C8. When \<^verbatim>\<open>handle_push\<close> returns a version id, the message was parsed and all its
  operations were performed. To the database they left, exactly one version was added,
  with the returned id (larger than every id before), the time of the push and the node of
  the message; and the operations of the message were added in ascending order of their
  client \<open>order\<close>, each linked to the new version and with an \<open>order\<close> the server
  assigned: the next keys of the operations table, whatever \<open>order\<close> the client sent.
  Nothing else of the database and nothing of the log has changed.
\<close>

theorem handle_push_accepted:
  assumes "handle_push parse islegit perform now data s = (Inr vid, s')"
  shows "\<exists>message d1.
           parse data = Inr message \<and>
           perform_all perform message (operations message) (db s) = (None, d1) \<and>
           versions (db s') =
             versions d1 @ [\<lparr>v_version_id = vid, v_created = now, v_node_id = node_id message\<rparr>] \<and>
           list_all (\<lambda>v. v_version_id v < vid) (versions d1) \<and>
           sync_operations (db s') =
             sync_operations d1 @
             map (\<lambda>(i, op). op\<lparr>order := next_order (sync_operations d1) + int i,
                                version_id := Some vid\<rparr>)
               (enumerate 0 (sort_key order (operations message))) \<and>
           tracked (db s') = tracked d1 \<and> log s' = log s"
proof -
  from assms obtain message where m: "parse data = Inr message"
    by (auto simp: handle_push_def with_transaction_def handle_push_body_def
        split: prod.splits sum.splits exc.splits)
  from assms m obtain d1 where
    p: "perform_all perform message (operations message) (db s) = (None, d1)"
    by (auto simp: handle_push_def with_transaction_def handle_push_body_def
        split: prod.splits sum.splits exc.splits option.splits if_splits)
  from assms m p have vid: "vid = next_version_id d1"
    and s': "s' = s\<lparr>db := d1\<lparr>versions := versions d1 @
                    [\<lparr>v_version_id = vid, v_created = now, v_node_id = node_id message\<rparr>],
                  sync_operations := insert_operations vid (sort_key order (operations message))
                    (sync_operations d1)\<rparr>\<rparr>"
    by (auto simp: handle_push_def with_transaction_def handle_push_body_def Let_def
        split: prod.splits sum.splits exc.splits option.splits if_splits)
  have "list_all (\<lambda>v. v_version_id v < vid) (versions d1)"
    unfolding vid list_all_iff using next_version_id_above by blast
  with m p show ?thesis
    by (simp add: s' insert_operations_eq)
qed

theorem handle_push_accepted_witness:
  "handle_push ex_parse ex_islegit ex_perform 30 Map.empty ex_server = (Inr 5, ex_server_pushed) \<and>
   (\<exists>message d1.
      ex_parse Map.empty = Inr message \<and>
      perform_all ex_perform message (operations message) (db ex_server) = (None, d1) \<and>
      versions (db ex_server_pushed) =
        versions d1 @ [\<lparr>v_version_id = 5, v_created = 30, v_node_id = node_id message\<rparr>] \<and>
      list_all (\<lambda>v. v_version_id v < 5) (versions d1) \<and>
      sync_operations (db ex_server_pushed) =
        sync_operations d1 @
        map (\<lambda>(i, op). op\<lparr>order := next_order (sync_operations d1) + int i,
                           version_id := Some 5\<rparr>)
          (enumerate 0 (sort_key order (operations message))) \<and>
      tracked (db ex_server_pushed) = tracked d1 \<and> log ex_server_pushed = log ex_server)"
  using handle_push_accepted[OF ex_push_accepted] ex_push_accepted by blast

text \<open>
  C9. When a push has passed the four checks and one of its operations raises
  \<open>OperationError\<close> (the operations before it having been performed), the push is rejected
  with \<open>PushRejected\<close> carrying the arguments of that error; the failure is logged with
  the node id; and the database is the one before the call: nothing the operations did is
  committed, no version is created and no operation is stored.
\<close>

theorem handle_push_operation_failure:
  assumes "parse data = Inr message"
    and "get_latest_version_id (db s) = latest_version_id message"
    and "islegit message (db s)"
    and "operations message = pre @ op # post"
    and "perform_all perform message pre (db s) = (None, d1)"
    and "perform op message d1 = (Some (OperationError args), d2)"
  shows "handle_push parse islegit perform now data s =
           (Inl (PushRejected (Text ''at least one operation couldn't be performed'' # args)),
            s\<lparr>log := log s @ [(''handlers.push.OperationError'', node_id message, args)]\<rparr>)"
proof -
  have p: "perform_all perform message (operations message) (db s) =
             (Some (OperationError args), d2)"
    unfolding assms(4) perform_all_append assms(5) using assms(6) by simp
  have ne: "operations message \<noteq> []" unfolding assms(4) by simp
  show ?thesis
    unfolding handle_push_def with_transaction_def handle_push_body_def
    using assms(1,2,3) ne by (simp add: p)
qed

theorem handle_push_operation_failure_witness:
  "handle_push ex_parse ex_islegit ex_perform 30 Map.empty ex_server_empty =
     (Inl (PushRejected [Text ''at least one operation couldn't be performed'',
                         Text ''row missing'', Op (mk_op 13 9 ''u'')]),
      ex_server_empty\<lparr>log := [(''handlers.push.OperationError'', 3,
                                 [Text ''row missing'', Op (mk_op 13 9 ''u'')])]\<rparr>)"
proof -
  have a: "ex_parse Map.empty = Inr ex_message" by (simp add: ex_parse_def)
  have b: "get_latest_version_id (db ex_server_empty) = latest_version_id ex_message"
    by (simp add: ex_latest_empty ex_message_def)
  have c: "ex_islegit ex_message (db ex_server_empty)"
    by (simp add: ex_islegit_def ex_message_def)
  have d: "operations ex_message = [mk_op 11 8 ''i''] @ mk_op 13 9 ''u'' # [mk_op 12 8 ''u'']"
    by (simp add: ex_message_def)
  from handle_push_operation_failure[where parse = ex_parse and data = Map.empty
      and message = ex_message and s = ex_server_empty and islegit = ex_islegit
      and pre = "[mk_op 11 8 ''i'']" and op = "mk_op 13 9 ''u''"
      and post = "[mk_op 12 8 ''u'']" and perform = ex_perform and now = 30,
      OF a b c d ex_perform_first ex_perform_second]
  show ?thesis by (simp add: ex_message_def ex_server_empty_def)
qed

end
